theory Spec2Isabelle
  imports Main "HOL-Library.Sublist"
begin

text \<open>
  A model of the test daemon of the package's server module: the matching of file
  patterns against the suite registry, the single-flight run coordinator with its
  output relay and its shutdown handling, and the name filters the daemon composes for
  the runner. The definitions follow the source function by function, under the names
  the source uses; the statements about them follow after all definitions.
\<close>

section \<open>Strings and paths\<close>

text \<open>
  JavaScript strings are modelled as \<^typ>\<open>string\<close> (lists of characters), a character
  standing for a code unit below 256. The functions of this section never look inside a
  character except to compare it with an ASCII delimiter.
\<close>

text \<open>\<^verbatim>\<open>s.replace(/\/+$/, '')\<close>: without the \<^verbatim>\<open>m\<close> flag the dollar anchors at the end of the
  input only, so the maximal run of slashes at the end is removed.\<close>

definition stripTrailingSlashes :: "string \<Rightarrow> string" where
  "stripTrailingSlashes s = rev (dropWhile (\<lambda>c. c = CHR ''/'') (rev s))"

text \<open>\<^verbatim>\<open>s.replace(/^\/+/, '')\<close>: the maximal run of slashes at the start is removed.\<close>

definition stripLeadingSlashes :: "string \<Rightarrow> string" where
  "stripLeadingSlashes s = dropWhile (\<lambda>c. c = CHR ''/'') s"

text \<open>\<^verbatim>\<open>s.split(sep)\<close> for a one-character separator. The accumulator holds the
  current segment reversed. The result is never empty: the empty string splits into
  one empty segment.\<close>

fun splitAcc :: "char \<Rightarrow> string \<Rightarrow> string \<Rightarrow> string list" where
  "splitAcc sep acc [] = [rev acc]"
| "splitAcc sep acc (c # cs) =
     (if c = sep then rev acc # splitAcc sep [] cs else splitAcc sep (c # acc) cs)"

definition split :: "char \<Rightarrow> string \<Rightarrow> string list" where
  "split sep s = splitAcc sep [] s"

text \<open>\<^verbatim>\<open>normalizePath\<close>: an empty path is returned as it is; otherwise leading slashes
  are stripped first and backslashes become slashes afterwards.\<close>

definition normalizePath :: "string \<Rightarrow> string" where
  "normalizePath filepath =
     (if filepath = [] then filepath
      else map (\<lambda>c. if c = CHR 0x5C then CHR ''/'' else c) (stripLeadingSlashes filepath))"

subsection \<open>pathMatchesPattern\<close>

text \<open>The segment sequence the matcher works on:
  \<^verbatim>\<open>x.replace(/\/+$/, '').split('/')\<close>.\<close>

definition segments :: "string \<Rightarrow> string list" where
  "segments x = split (CHR ''/'') (stripTrailingSlashes x)"

text \<open>The inner loop \<^verbatim>\<open>for (let i = 0; i < patternSegments.length; i++)\<close> with its
  \<^verbatim>\<open>break\<close> at the first differing segment; the result is the final value of
  \<^verbatim>\<open>matches\<close>.\<close>

function innerLoop :: "string list \<Rightarrow> string list \<Rightarrow> nat \<Rightarrow> nat \<Rightarrow> bool" where
  "innerLoop fileSegments patternSegments start i =
     (if i < length patternSegments
      then (if fileSegments ! (start + i) \<noteq> patternSegments ! i then False
            else innerLoop fileSegments patternSegments start (i + 1))
      else True)"
  by pat_completeness auto
termination
  by (relation "measure (\<lambda>(fs, ps, start, i). length ps - i)") auto

declare innerLoop.simps [simp del]

text \<open>The outer loop
  \<^verbatim>\<open>for (let start = 0; start <= fileSegments.length - patternSegments.length; start++)\<close>.
  It is only entered when the pattern has at most as many segments as the file, so
  the subtraction on \<^typ>\<open>nat\<close> is exact there and every index read by the inner loop is
  in range.\<close>

function outerLoop :: "string list \<Rightarrow> string list \<Rightarrow> nat \<Rightarrow> bool" where
  "outerLoop fileSegments patternSegments start =
     (if start \<le> length fileSegments - length patternSegments
      then (if innerLoop fileSegments patternSegments start 0 then True
            else outerLoop fileSegments patternSegments (start + 1))
      else False)"
  by pat_completeness auto
termination
  by (relation "measure (\<lambda>(fs, ps, start). Suc (length fs - length ps) - start)") auto

declare outerLoop.simps [simp del]

definition pathMatchesPattern :: "string \<Rightarrow> string \<Rightarrow> bool" where
  "pathMatchesPattern filePath pattern =
     (let fileSegments = segments filePath;
          patternSegments = segments pattern
      in if length patternSegments > length fileSegments then False
         else outerLoop fileSegments patternSegments 0)"

section \<open>The suite registry\<close>

text \<open>
  A node of Mocha's suite tree, with the three things the daemon reads from it:
  \<^verbatim>\<open>suite.title\<close>, \<^verbatim>\<open>suite.file\<close> (absent on a node that was not tagged) and the
  children \<^verbatim>\<open>suite.suites\<close>. \<^verbatim>\<open>suite.fullTitle()\<close> is computed by Mocha; its result is
  carried by the node.
\<close>

datatype suite =
  Suite (title: string) (suiteFile: "string option") (fullTitle: string) (suites: "suite list")

text \<open>JavaScript truthiness of a possibly absent string, and \<^verbatim>\<open>a || b\<close>.\<close>

definition truthy :: "string option \<Rightarrow> bool" where
  "truthy v = (case v of None \<Rightarrow> False | Some x \<Rightarrow> x \<noteq> [])"

definition orElse :: "string option \<Rightarrow> string option \<Rightarrow> string option" where
  "orElse a b = (if truthy a then a else b)"

definition orDefault :: "string option \<Rightarrow> string \<Rightarrow> string" where
  "orDefault a d = (case a of None \<Rightarrow> d | Some x \<Rightarrow> if x = [] then d else x)"

text \<open>The characters of the class \<^verbatim>\<open>[.*+?^${}()|[\]\\]\<close>; the last one is the backslash.\<close>

definition backslash :: char where
  "backslash = CHR 0x5C"

definition regexSpecialChars :: "char list" where
  "regexSpecialChars = ''.*+?^${}()|[]'' @ [backslash]"

text \<open>\<^verbatim>\<open>str.replace(/[.*+?^${}()|[\]\\]/g, '\\$&')\<close>: every character of the class is
  replaced by a backslash followed by itself, every other character is kept.\<close>

definition escapeRegex :: "string \<Rightarrow> string" where
  "escapeRegex str =
     concat (map (\<lambda>c. if c \<in> set regexSpecialChars then [backslash, c] else [c]) str)"

text \<open>The inner function \<^verbatim>\<open>findSuites\<close> of \<^verbatim>\<open>findSuitesForFile\<close>. The pushes to
  \<^verbatim>\<open>fileSuites\<close> become the returned list: the node's own entry first, then the entries
  of its children in order.\<close>

fun findSuites :: "string \<Rightarrow> suite \<Rightarrow> string option \<Rightarrow> string list" where
  "findSuites normalizedPattern (Suite t f ft cs) parentFile =
     (case orElse f parentFile of
        None \<Rightarrow> []
      | Some fl \<Rightarrow>
          if fl \<noteq> [] \<and> pathMatchesPattern (normalizePath fl) normalizedPattern \<and> t \<noteq> []
          then [escapeRegex ft] else [])
     @ concat (map (\<lambda>child. findSuites normalizedPattern child (orElse f parentFile)) cs)"

definition findSuitesForFile :: "suite \<Rightarrow> string \<Rightarrow> string list" where
  "findSuitesForFile root filePattern = findSuites (normalizePath filePattern) root None"

text \<open>\<^verbatim>\<open>xs.join(sep)\<close>.\<close>

fun join :: "string \<Rightarrow> string list \<Rightarrow> string" where
  "join sep [] = []"
| "join sep [x] = x"
| "join sep (x # y # ys) = x @ sep @ join sep (y # ys)"

section \<open>Regular expressions as the runner reads them\<close>

text \<open>
  The daemon hands the name filter to the runner as a string; as the source notes at
  that call, the runner converts it to a \<^verbatim>\<open>RegExp\<close>, and it selects a title with
  \<^verbatim>\<open>test\<close>. To state what a composed filter selects, this section models the part of
  the ECMAScript pattern language (no flags) that the daemon's filters are made of:
  pattern characters, a backslash before a syntax character (an identity escape), the
  dot, the quantifiers star, plus and question mark, alternatives, groups, the
  anchors and the positive lookahead. Every other construct (character classes,
  braces, class escapes, back references, other group kinds, lazy quantifiers) is
  outside the fragment, and a pattern that uses one has no reading here (\<open>None\<close>).
  A character of the model is a code unit below 256.
\<close>

subsection \<open>Tokens\<close>

text \<open>The syntax characters of the pattern grammar; they are the characters that
  \<open>escapeRegex\<close> escapes.\<close>

definition regexSyntaxChars :: "char list" where
  "regexSyntaxChars = ''^$'' @ [backslash] @ ''.*+?()[]{}|''"

datatype token =
    TChar char
  | TDot
  | TStar
  | TPlus
  | TQuest
  | TBar
  | TOpen
  | TLookahead
  | TClose
  | TCaret
  | TDollar

text \<open>The token a single unescaped character stands for; a bracket or a brace on its
  own is outside the fragment.\<close>

definition plainToken :: "char \<Rightarrow> token option" where
  "plainToken c =
     (if c = CHR ''.'' then Some TDot
      else if c = CHR ''*'' then Some TStar
      else if c = CHR ''+'' then Some TPlus
      else if c = CHR ''?'' then Some TQuest
      else if c = CHR ''|'' then Some TBar
      else if c = CHR '')'' then Some TClose
      else if c = CHR ''^'' then Some TCaret
      else if c = CHR ''$'' then Some TDollar
      else if c \<in> set ''[]{}'' then None
      else Some (TChar c))"

text \<open>The state of the scanner: at the start of a token, after a backslash, after an
  opening parenthesis, or after an opening parenthesis and a question mark.\<close>

datatype scan = Start | Escape | Paren | ParenQuest

text \<open>The scanner reads the pattern from left to right. A backslash must be followed by
  a syntax character, which then stands for itself. An opening parenthesis starts a
  lookahead when \<^verbatim>\<open>?=\<close> follows, a group when \<^verbatim>\<open>?:\<close> or no question mark follows.\<close>

function (sequential) scanPattern :: "scan \<Rightarrow> string \<Rightarrow> token list option" where
  "scanPattern Start [] = Some []"
| "scanPattern Escape [] = None"
| "scanPattern Paren [] = Some [TOpen]"
| "scanPattern ParenQuest [] = None"
| "scanPattern Start (c # cs) =
     (if c = backslash then scanPattern Escape cs
      else if c = CHR ''('' then scanPattern Paren cs
      else (case plainToken c of
              None \<Rightarrow> None
            | Some t \<Rightarrow> map_option (\<lambda>ts. t # ts) (scanPattern Start cs)))"
| "scanPattern Escape (c # cs) =
     (if c \<in> set regexSyntaxChars
      then map_option (\<lambda>ts. TChar c # ts) (scanPattern Start cs)
      else None)"
| "scanPattern Paren (c # cs) =
     (if c = CHR ''?'' then scanPattern ParenQuest cs
      else map_option (\<lambda>ts. TOpen # ts) (scanPattern Start (c # cs)))"
| "scanPattern ParenQuest (c # cs) =
     (if c = CHR ''='' then map_option (\<lambda>ts. TLookahead # ts) (scanPattern Start cs)
      else if c = CHR '':'' then map_option (\<lambda>ts. TOpen # ts) (scanPattern Start cs)
      else None)"
  by pat_completeness auto
termination
  by (relation "measure (\<lambda>(st, cs). 2 * length cs + (case st of Paren \<Rightarrow> 1 | _ \<Rightarrow> 0))") auto

definition tokenize :: "string \<Rightarrow> token list option" where
  "tokenize p = scanPattern Start p"

subsection \<open>Syntax trees and the parser\<close>

datatype regex =
    Empty
  | Chr char
  | AnyChar
  | Seq regex regex
  | Alt regex regex
  | Star regex
  | InputStart
  | InputEnd
  | Lookahead regex

text \<open>An atom with the quantifier that follows it, if any.\<close>

fun quantified :: "regex \<Rightarrow> token list \<Rightarrow> (regex \<times> token list) option" where
  "quantified a (TStar # rest) = Some (Star a, rest)"
| "quantified a (TPlus # rest) = Some (Seq a (Star a), rest)"
| "quantified a (TQuest # rest) = Some (Alt a Empty, rest)"
| "quantified a rest = Some (a, rest)"

text \<open>Recursive descent along the grammar: a disjunction is a list of alternatives
  separated by bars, an alternative is a sequence of terms that ends at a bar, at a
  closing parenthesis or at the end, a term is an assertion or an atom with its
  quantifier. Each function returns the tree and the tokens left. The first argument
  bounds the depth of the recursion; \<open>regexCompile\<close> below supplies it.\<close>

fun parseDisjunction :: "nat \<Rightarrow> token list \<Rightarrow> (regex \<times> token list) option"
  and parseAlternative :: "nat \<Rightarrow> token list \<Rightarrow> (regex \<times> token list) option"
  and parseTerm :: "nat \<Rightarrow> token list \<Rightarrow> (regex \<times> token list) option"
where
  "parseDisjunction 0 ts = None"
| "parseDisjunction (Suc n) ts =
     (case parseAlternative n ts of
        None \<Rightarrow> None
      | Some (a, rest) \<Rightarrow>
          (case rest of
             TBar # rest' \<Rightarrow>
               (case parseDisjunction n rest' of
                  None \<Rightarrow> None
                | Some (d, rest'') \<Rightarrow> Some (Alt a d, rest''))
           | _ \<Rightarrow> Some (a, rest)))"
| "parseAlternative 0 ts = None"
| "parseAlternative (Suc n) [] = Some (Empty, [])"
| "parseAlternative (Suc n) (TBar # ts) = Some (Empty, TBar # ts)"
| "parseAlternative (Suc n) (TClose # ts) = Some (Empty, TClose # ts)"
| "parseAlternative (Suc n) ts =
     (case parseTerm n ts of
        None \<Rightarrow> None
      | Some (t, rest) \<Rightarrow>
          (case parseAlternative n rest of
             None \<Rightarrow> None
           | Some (a, rest') \<Rightarrow> Some (Seq t a, rest')))"
| "parseTerm 0 ts = None"
| "parseTerm (Suc n) (TChar c # rest) = quantified (Chr c) rest"
| "parseTerm (Suc n) (TDot # rest) = quantified AnyChar rest"
| "parseTerm (Suc n) (TCaret # rest) = Some (InputStart, rest)"
| "parseTerm (Suc n) (TDollar # rest) = Some (InputEnd, rest)"
| "parseTerm (Suc n) (TOpen # rest) =
     (case parseDisjunction n rest of
        Some (d, TClose # rest') \<Rightarrow> quantified d rest'
      | _ \<Rightarrow> None)"
| "parseTerm (Suc n) (TLookahead # rest) =
     (case parseDisjunction n rest of
        Some (d, TClose # rest') \<Rightarrow> Some (Lookahead d, rest')
      | _ \<Rightarrow> None)"
| "parseTerm (Suc n) ts = None"

text \<open>\<^verbatim>\<open>new RegExp(p)\<close> for a pattern of the fragment: the whole token list must be one
  disjunction. Every step of the descent that consumes no token is followed by one
  that does, so three levels for each token, and three more, are enough depth.\<close>

definition regexCompile :: "string \<Rightarrow> regex option" where
  "regexCompile p =
     (case tokenize p of
        None \<Rightarrow> None
      | Some ts \<Rightarrow>
          (case parseDisjunction (3 * length ts + 3) ts of
             Some (r, []) \<Rightarrow> Some r
           | _ \<Rightarrow> None))"

subsection \<open>Matching\<close>

text \<open>The dot matches every character but a line terminator.\<close>

definition isLineTerminator :: "char \<Rightarrow> bool" where
  "isLineTerminator c = (c = CHR 0x0A \<or> c = CHR 0x0D)"

text \<open>The positions reachable from \<open>xs\<close> by repeating a step; every round adds the
  new positions, and there are no more rounds than positions.\<close>

fun starEnds :: "(nat \<Rightarrow> nat list) \<Rightarrow> nat \<Rightarrow> nat list \<Rightarrow> nat list" where
  "starEnds f 0 xs = xs"
| "starEnds f (Suc n) xs =
     (let new = remdups (filter (\<lambda>j. j \<notin> set xs) (concat (map f xs)))
      in if new = [] then xs else starEnds f n (xs @ new))"

text \<open>\<open>ends r s i\<close> lists the positions at which a match of \<open>r\<close> that starts at
  position \<open>i\<close> of \<open>s\<close> can end. The fragment has no captures and no back references,
  so whether \<^verbatim>\<open>test\<close> succeeds depends on these positions only.\<close>

fun ends :: "regex \<Rightarrow> string \<Rightarrow> nat \<Rightarrow> nat list" where
  "ends Empty s i = [i]"
| "ends (Chr c) s i = (if i < length s \<and> s ! i = c then [Suc i] else [])"
| "ends AnyChar s i = (if i < length s \<and> \<not> isLineTerminator (s ! i) then [Suc i] else [])"
| "ends (Seq a b) s i = concat (map (ends b s) (ends a s i))"
| "ends (Alt a b) s i = ends a s i @ ends b s i"
| "ends (Star a) s i = starEnds (ends a s) (length s) [i]"
| "ends InputStart s i = (if i = 0 then [i] else [])"
| "ends InputEnd s i = (if i = length s then [i] else [])"
| "ends (Lookahead a) s i = (if ends a s i = [] then [] else [i])"

text \<open>\<^verbatim>\<open>r.test(s)\<close>: a match may start at any position.\<close>

definition matchesSomewhere :: "regex \<Rightarrow> string \<Rightarrow> bool" where
  "matchesSomewhere r s = list_ex (\<lambda>i. ends r s i \<noteq> []) [0..<Suc (length s)]"

text \<open>\<^verbatim>\<open>new RegExp(p).test(s)\<close>, this is how the runner decides whether the title \<open>s\<close> is
  selected by the filter \<open>p\<close>.\<close>

definition regexTest :: "string \<Rightarrow> string \<Rightarrow> bool option" where
  "regexTest p s = map_option (\<lambda>r. matchesSomewhere r s) (regexCompile p)"

text \<open>Whether the pattern matches the whole of \<open>s\<close>, from its start to its end.\<close>

definition regexMatchesWhole :: "string \<Rightarrow> string \<Rightarrow> bool option" where
  "regexMatchesWhole p s = map_option (\<lambda>r. length s \<in> set (ends r s 0)) (regexCompile p)"

subsection \<open>Patterns the constructor rejects\<close>

text \<open>\<^verbatim>\<open>new RegExp(p)\<close> throws a \<^verbatim>\<open>SyntaxError\<close> for a string that is not a pattern. What the
  model knows of a string is one of three things: the constructor accepts it, the
  constructor throws, or the string uses a construct outside the fragment and the model
  does not say.\<close>

datatype verdict = Accepts | Throws | Unknown

definition isQuantifier :: "token \<Rightarrow> bool" where
  "isQuantifier t = (t = TStar \<or> t = TPlus \<or> t = TQuest)"

text \<open>A question mark right after a quantifier makes the quantifier lazy.\<close>

fun lazyQuantifier :: "token list \<Rightarrow> bool" where
  "lazyQuantifier (t # u # ts) = ((isQuantifier t \<and> u = TQuest) \<or> lazyQuantifier (u # ts))"
| "lazyQuantifier ts = False"

text \<open>A quantifier right after the parenthesis that closes a lookahead. The first
  argument lists the parentheses that are open, the innermost first, with \<open>True\<close> for a
  lookahead.\<close>

fun quantifiedLookahead :: "bool list \<Rightarrow> token list \<Rightarrow> bool" where
  "quantifiedLookahead opened [] = False"
| "quantifiedLookahead opened (TOpen # ts) = quantifiedLookahead (False # opened) ts"
| "quantifiedLookahead opened (TLookahead # ts) = quantifiedLookahead (True # opened) ts"
| "quantifiedLookahead opened (TClose # ts) =
     (case opened of
        [] \<Rightarrow> quantifiedLookahead [] ts
      | b # outer \<Rightarrow>
          (b \<and> (case ts of [] \<Rightarrow> False | t # rest \<Rightarrow> isQuantifier t))
          \<or> quantifiedLookahead outer ts)"
| "quantifiedLookahead opened (t # ts) = quantifiedLookahead opened ts"

text \<open>On the tokens of the fragment, the pattern grammar has two productions more than
  the parser above: the lazy quantifiers and a quantifier after a lookahead. So a token
  list that the parser does not accept, and that has neither of the two, is not a
  pattern: a quantifier with nothing to repeat, a group that is not closed or a closing
  parenthesis that closes nothing.\<close>

definition newRegExp :: "string \<Rightarrow> verdict" where
  "newRegExp p =
     (case tokenize p of
        None \<Rightarrow> Unknown
      | Some ts \<Rightarrow>
          (case regexCompile p of
             Some x \<Rightarrow> Accepts
           | None \<Rightarrow> if lazyQuantifier ts \<or> quantifiedLookahead [] ts then Unknown else Throws))"

text \<open>A string without line terminators.\<close>

definition noLineTerminator :: "string \<Rightarrow> bool" where
  "noLineTerminator s = list_all (\<lambda>c. \<not> isLineTerminator c) s"

section \<open>The daemon\<close>

subsection \<open>Events, connections and state\<close>

text \<open>The value the runner hands to its completion callback. A failure count is a
  number; the other constructors are the values for which \<^verbatim>\<open>typeof v !== 'number'\<close>.\<close>

datatype js_value = JNumber int | JUndefined | JString string

definition isNumber :: "js_value \<Rightarrow> bool" where
  "isNumber v = (case v of JNumber n \<Rightarrow> True | _ \<Rightarrow> False)"

text \<open>The payloads written to an event stream, by their \<^verbatim>\<open>type\<close> field.\<close>

datatype event =
    StartEvent string bool
  | LogEvent string
  | ErrorEvent string
  | JsonEvent string
  | HeartbeatEvent
  | DoneEvent js_value
  | ShutdownEvent string

text \<open>What the daemon does to a response object, in order: \<^verbatim>\<open>res.writeHead\<close>,
  \<^verbatim>\<open>res.write\<close> of one event, \<^verbatim>\<open>res.end()\<close>.\<close>

datatype res_call = WriteHead | Write event | End

type_synonym conn = nat

text \<open>The settings of \<^verbatim>\<open>mochaInstance\<close> the daemon writes, the suite tree it reads, and
  counters for the calls of \<^verbatim>\<open>suite.reset()\<close> and \<^verbatim>\<open>run(...)\<close>.\<close>

record mocha_state =
  m_suite :: suite
  m_grep :: string
  m_invert :: bool
  m_bail :: bool
  m_color :: bool
  m_reporter :: string
  m_resetCount :: nat
  m_runCount :: nat

text \<open>The local variables of one call of \<^verbatim>\<open>runDaemonTests\<close> that its closures (the
  replaced \<^verbatim>\<open>process.stdout.write\<close> and \<^verbatim>\<open>process.stderr.write\<close>, the heartbeat timer
  and the completion callback) share. \<open>heartbeat\<close> says that the interval timer is set.\<close>

record run_closure =
  res :: conn
  previousSnapshotUpdate :: "string option"
  useJsonReporter :: bool
  jsonBuffer :: string
  heartbeat :: bool

text \<open>The module-level variables of the daemon and the parts of the process it
  touches. \<open>intercept\<close> holds the closure of the run in flight while the output
  functions are replaced, and \<open>None\<close> while they are the original ones. \<open>stdout\<close> and
  \<open>stderr\<close> list the chunks that reached the original write functions.\<close>

record daemon =
  daemonTestsRunning :: bool
  clientDisconnected :: bool
  shuttingDown :: bool
  activeConnections :: "conn list"
  SNAPSHOT_UPDATE :: "string option"
  mocha :: mocha_state
  serverReporter :: "string option"
  isAppTest :: bool
  serverTestsDone :: bool
  clientLines :: "string list"
  intercept :: "run_closure option"
  stdout :: "string list"
  stderr :: "string list"
  responses :: "conn \<Rightarrow> res_call list"

record run_options =
  opt_reporter :: string
  opt_snapshotUpdate :: bool
  opt_bail :: bool

text \<open>The query parameters of a request to the run endpoint, as
  \<^verbatim>\<open>url.searchParams.get\<close> returns them (\<open>None\<close> for an absent parameter).\<close>

record query =
  q_grep :: "string option"
  q_file :: "string option"
  q_invert :: "string option"
  q_reporter :: "string option"
  q_snapshotUpdate :: "string option"
  q_bail :: "string option"

subsection \<open>Strings the daemon formats\<close>

definition newline :: char where
  "newline = CHR 0x0A"

text \<open>\<^verbatim>\<open>str.replace(/\n$/, '')\<close>: one newline at the very end is removed.\<close>

definition stripTrailingNewline :: "string \<Rightarrow> string" where
  "stripTrailingNewline str = (if str \<noteq> [] \<and> last str = newline then butlast str else str)"

text \<open>\<^verbatim>\<open>str.trim()\<close> removes white space and line terminators from both ends. Among
  the code units below 256 these are the tab, the line feed, the vertical tab, the form
  feed, the carriage return, the space and the no-break space.\<close>

definition isWhiteSpace :: "char \<Rightarrow> bool" where
  "isWhiteSpace c =
     (c \<in> set [CHR 0x09, CHR 0x0A, CHR 0x0B, CHR 0x0C, CHR 0x0D, CHR 0x20, CHR 0xA0])"

definition trim :: "string \<Rightarrow> string" where
  "trim str = rev (dropWhile isWhiteSpace (rev (dropWhile isWhiteSpace str)))"

text \<open>Decimal digits of a number, for the template string that prints the failure
  count.\<close>

function showNat :: "nat \<Rightarrow> string" where
  "showNat n = (if n < 10 then [char_of (48 + n)] else showNat (n div 10) @ [char_of (48 + n mod 10)])"
  by pat_completeness auto
termination
  by (relation "measure id") auto

declare showNat.simps [simp del]

definition showValue :: "js_value \<Rightarrow> string" where
  "showValue v =
     (case v of
        JNumber n \<Rightarrow> (if n < 0 then CHR ''-'' # showNat (nat (- n)) else showNat (nat n))
      | JUndefined \<Rightarrow> ''undefined''
      | JString x \<Rightarrow> x)"

subsection \<open>Responses and output streams\<close>

text \<open>A response is modelled by the list of calls the daemon has made on it. The calls
  are taken to return normally, so the \<^verbatim>\<open>catch\<close> blocks around them never run.\<close>

definition res_call :: "conn \<Rightarrow> res_call \<Rightarrow> daemon \<Rightarrow> daemon" where
  "res_call r c s = s\<lparr>responses := (responses s)(r := responses s r @ [c])\<rparr>"

definition res_write :: "conn \<Rightarrow> event \<Rightarrow> daemon \<Rightarrow> daemon" where
  "res_write r e s = res_call r (Write e) s"

definition res_end :: "conn \<Rightarrow> daemon \<Rightarrow> daemon" where
  "res_end r s = res_call r End s"

text \<open>\<^verbatim>\<open>process.stdout.write(chunk)\<close>. While a run has replaced it, the chunk is
  appended to \<^verbatim>\<open>jsonBuffer\<close> under the JSON reporter and sent as a \<^verbatim>\<open>log\<close> event
  (\<^verbatim>\<open>sendLog\<close>) otherwise; in every case the original write function is called.\<close>

definition processStdoutWrite :: "string \<Rightarrow> daemon \<Rightarrow> daemon" where
  "processStdoutWrite chunk s =
     (let s1 =
        (case intercept s of
           None \<Rightarrow> s
         | Some c \<Rightarrow>
             if useJsonReporter c
             then s\<lparr>intercept := Some (c\<lparr>jsonBuffer := jsonBuffer c @ chunk\<rparr>)\<rparr>
             else res_write (res c) (LogEvent (stripTrailingNewline chunk)) s)
      in s1\<lparr>stdout := stdout s1 @ [chunk]\<rparr>)"

text \<open>\<^verbatim>\<open>process.stderr.write(chunk)\<close>. While a run has replaced it, the chunk is sent as
  an \<^verbatim>\<open>error\<close> event (\<^verbatim>\<open>sendError\<close>), whatever the reporter.\<close>

definition processStderrWrite :: "string \<Rightarrow> daemon \<Rightarrow> daemon" where
  "processStderrWrite chunk s =
     (let s1 =
        (case intercept s of
           None \<Rightarrow> s
         | Some c \<Rightarrow> res_write (res c) (ErrorEvent (stripTrailingNewline chunk)) s)
      in s1\<lparr>stderr := stderr s1 @ [chunk]\<rparr>)"

text \<open>\<^verbatim>\<open>console.log\<close> and \<^verbatim>\<open>console.error\<close> of one already formatted line. Node's console
  writes the line and a newline with the \<^verbatim>\<open>write\<close> function the stream has at that
  moment; the wrappers that \<^verbatim>\<open>runDaemonTests\<close> installs only call the original
  console functions, so they change nothing.\<close>

definition console_log :: "string \<Rightarrow> daemon \<Rightarrow> daemon" where
  "console_log line s = processStdoutWrite (line @ [newline]) s"

definition console_error :: "string \<Rightarrow> daemon \<Rightarrow> daemon" where
  "console_error line s = processStderrWrite (line @ [newline]) s"

definition clientLogBuffer :: "string \<Rightarrow> daemon \<Rightarrow> daemon" where
  "clientLogBuffer line s =
     (if serverTestsDone s then console_log line s
      else s\<lparr>clientLines := clientLines s @ [line]\<rparr>)"

definition headerLines :: "bool \<Rightarrow> string \<Rightarrow> string list" where
  "headerLines appTest type =
     [newline # ''--------------------------------'',
      (if appTest then ''--- RUNNING APP '' @ type @ '' TESTS ---''
       else ''----- RUNNING '' @ type @ '' TESTS -----''),
      ''--------------------------------'' @ [newline]]"

definition printHeader :: "string \<Rightarrow> daemon \<Rightarrow> daemon" where
  "printHeader type s =
     fold (\<lambda>line. if type = ''CLIENT'' then clientLogBuffer line else console_log line)
       (headerLines (isAppTest s) type) s"

subsection \<open>Shutdown, disconnect and heartbeat handlers\<close>

text \<open>The \<^verbatim>\<open>shutdown\<close> function of \<^verbatim>\<open>setupShutdownHandlers\<close>, called for SIGTERM and
  SIGINT.\<close>

definition shutdown :: "string \<Rightarrow> daemon \<Rightarrow> daemon" where
  "shutdown signal s =
     (if shuttingDown s then s
      else
        let s1 = s\<lparr>shuttingDown := True\<rparr>;
            s2 = console_log (''[daemon] Received '' @ signal @ '', notifying clients...'') s1;
            s3 = fold (\<lambda>r t. res_end r (res_write r (ShutdownEvent signal) t))
                   (activeConnections s2) s2
        in s3\<lparr>activeConnections := []\<rparr>)"

text \<open>The \<^verbatim>\<open>close\<close> listener that \<^verbatim>\<open>runDaemonTests\<close> puts on its response.\<close>

definition onClose :: "daemon \<Rightarrow> daemon" where
  "onClose s =
     (if daemonTestsRunning s
      then (console_log ''[daemon] Client disconnected while tests running'' s)
             \<lparr>clientDisconnected := True\<rparr>
      else s)"

text \<open>One firing of the heartbeat interval of the run in flight.\<close>

definition heartbeatTick :: "daemon \<Rightarrow> daemon" where
  "heartbeatTick s =
     (case intercept s of
        None \<Rightarrow> s
      | Some c \<Rightarrow> if heartbeat c then res_write (res c) HeartbeatEvent s else s)"

subsection \<open>runDaemonTests\<close>

text \<open>\<^verbatim>\<open>activeConnections.add(res)\<close> and \<^verbatim>\<open>activeConnections.delete(res)\<close> on a set kept
  in insertion order.\<close>

definition setAdd :: "conn \<Rightarrow> conn list \<Rightarrow> conn list" where
  "setAdd r xs = (if r \<in> set xs then xs else xs @ [r])"

definition setDelete :: "conn \<Rightarrow> conn list \<Rightarrow> conn list" where
  "setDelete r xs = filter (\<lambda>x. x \<noteq> r) xs"

text \<open>The calls of the runner between the bookkeeping and \<^verbatim>\<open>mochaInstance.run\<close> are not
  in a \<^verbatim>\<open>try\<close> block, so an exception of one of them leaves \<^verbatim>\<open>runDaemonTests\<close> and the
  handler of the endpoint at that point. Two of them depend on the request or on the
  options of the process; the reset of the suites and the setters of the other options
  are taken to return.

  \<^verbatim>\<open>mochaInstance.grep(re)\<close> makes the \<^verbatim>\<open>RegExp\<close> of the string, as the source notes at the
  call, and the \<^verbatim>\<open>SyntaxError\<close> of the constructor passes through it. The runner reads a
  string of the form \<^verbatim>\<open>/pattern/flags\<close> as a pattern with flags, and no further than a
  line terminator; the model does not say what happens for a string that starts with a
  slash or holds a line terminator.\<close>

definition mochaGrep :: "string \<Rightarrow> verdict" where
  "mochaGrep re =
     (if (re \<noteq> [] \<and> hd re = CHR ''/'') \<or> \<not> noLineTerminator re then Unknown
      else newRegExp re)"

text \<open>\<^verbatim>\<open>mochaInstance.reporter(name, ...)\<close> throws for a name it cannot load. The two names
  that the source itself passes are reporters of the runner; for any other value of the
  \<^verbatim>\<open>serverReporter\<close> option the model does not say.\<close>

definition mochaReporter :: "string \<Rightarrow> verdict" where
  "mochaReporter name = (if name = ''json'' \<or> name = ''spec'' then Accepts else Unknown)"

text \<open>How a call of \<^verbatim>\<open>runDaemonTests\<close>, or of the handler of the run endpoint, ends: it
  returns, or it throws, each with the state it leaves behind; or the model does not
  follow it, because it does not know whether a call of the runner throws.\<close>

datatype result = Returned daemon | Threw daemon | NotFollowed

text \<open>The part of \<^verbatim>\<open>runDaemonTests\<close> from the call of \<^verbatim>\<open>mochaInstance.reporter\<close> on: the
  replacement of the output functions, the header, the heartbeat timer and the call of
  \<^verbatim>\<open>mochaInstance.run\<close>, which returns at once.\<close>

definition startRun :: "conn \<Rightarrow> string option \<Rightarrow> bool \<Rightarrow> string \<Rightarrow> daemon \<Rightarrow> daemon" where
  "startRun r previous useJson name s =
     (let s1 = s\<lparr>mocha := (mocha s)\<lparr>m_reporter := name\<rparr>\<rparr>;
          s2 = s1\<lparr>intercept := Some \<lparr>res = r, previousSnapshotUpdate = previous,
                 useJsonReporter = useJson, jsonBuffer = [], heartbeat = False\<rparr>\<rparr>;
          s3 = (if \<not> useJson then printHeader ''SERVER'' s2 else s2);
          s4 = s3\<lparr>intercept := map_option (\<lambda>c. c\<lparr>heartbeat := True\<rparr>) (intercept s3)\<rparr>
      in s4\<lparr>mocha := (mocha s4)\<lparr>m_runCount := Suc (m_runCount (mocha s4))\<rparr>\<rparr>)"

text \<open>The part of \<^verbatim>\<open>runDaemonTests\<close> that runs at the call: the two guards, the
  bookkeeping, the environment variable, the reset of the suites, the configuration of
  the runner, and then \<open>startRun\<close>. The callback passed to \<^verbatim>\<open>mochaInstance.run\<close> is
  \<open>mochaRunCallback\<close> below. When \<^verbatim>\<open>mochaInstance.grep\<close> throws, the flag
  \<^verbatim>\<open>daemonTestsRunning\<close>, the registered connection, the environment variable and the
  reset of the suites are what the call leaves behind: the output functions have not been
  replaced, no timer is set and \<^verbatim>\<open>mochaInstance.run\<close> has not been called.\<close>

definition runDaemonTests :: "string \<Rightarrow> bool \<Rightarrow> conn \<Rightarrow> run_options \<Rightarrow> daemon \<Rightarrow> result" where
  "runDaemonTests grepPattern invert r options s =
     (if daemonTestsRunning s then
        Returned
          (res_end r (res_write r (ErrorEvent ''Tests already running - wait or restart daemon'') s))
      else if shuttingDown s then
        Returned (res_end r (res_write r (ShutdownEvent ''Server is shutting down'') s))
      else
        let s1 = s\<lparr>daemonTestsRunning := True, clientDisconnected := False,
                   activeConnections := setAdd r (activeConnections s)\<rparr>;
            previous = SNAPSHOT_UPDATE s1;
            s2 = (if opt_snapshotUpdate options then s1\<lparr>SNAPSHOT_UPDATE := Some ''1''\<rparr> else s1);
            s3 = s2\<lparr>mocha := (mocha s2)\<lparr>m_resetCount := Suc (m_resetCount (mocha s2))\<rparr>\<rparr>;
            useJson = (opt_reporter options = ''json'');
            name = (if useJson then ''json'' else orDefault (serverReporter s) ''spec'')
        in case mochaGrep grepPattern of
             Throws \<Rightarrow> Threw s3
           | Unknown \<Rightarrow> NotFollowed
           | Accepts \<Rightarrow>
               let s4 = s3\<lparr>mocha := (mocha s3)\<lparr>m_grep := grepPattern, m_invert := invert,
                          m_bail := opt_bail options, m_color := (\<not> useJson)\<rparr>\<rparr>
               in (case mochaReporter name of
                     Throws \<Rightarrow> Threw s4
                   | Unknown \<Rightarrow> NotFollowed
                   | Accepts \<Rightarrow> Returned (startRun r previous useJson name s4)))"

text \<open>The callback \<^verbatim>\<open>async (failureCount) => {...}\<close> that the runner calls when the run
  is over. \<open>resetError\<close> is the outcome of \<^verbatim>\<open>resetAllCollections()\<close>: \<open>None\<close> when it
  returned, the message of the exception when it threw. The callback exists only for
  a run that was started, so without a closure in flight nothing happens. While the
  callback awaits the reset, the daemon is in the state it was in before the callback
  but for the heartbeat timer; an event that arrives then has the effect of the same
  event arriving just before the callback.\<close>

definition mochaRunCallback :: "js_value \<Rightarrow> string option \<Rightarrow> daemon \<Rightarrow> daemon" where
  "mochaRunCallback failureCount resetError s =
     (case intercept s of
        None \<Rightarrow> s
      | Some c0 \<Rightarrow>
          let s1 = s\<lparr>intercept := Some (c0\<lparr>heartbeat := False\<rparr>)\<rparr>;
              s2 = (case resetError of
                      None \<Rightarrow> s1
                    | Some msg \<Rightarrow> console_error (''[daemon] Failed to reset collections: '' @ msg) s1);
              buffer = (case intercept s2 of None \<Rightarrow> [] | Some c \<Rightarrow> jsonBuffer c);
              s3 = s2\<lparr>intercept := None\<rparr>;
              s4 = s3\<lparr>SNAPSHOT_UPDATE := previousSnapshotUpdate c0\<rparr>;
              s5 = s4\<lparr>daemonTestsRunning := False,
                      activeConnections := setDelete (res c0) (activeConnections s4)\<rparr>
          in if clientDisconnected s5 then
               console_log (''[daemon] Tests completed ('' @ showValue failureCount
                            @ '' failures) but client already disconnected'') s5
             else
               let s6 = (if useJsonReporter c0 \<and> buffer \<noteq> []
                         then res_write (res c0) (JsonEvent (trim buffer)) s5 else s5)
               in res_end (res c0) (res_write (res c0) (DoneEvent failureCount) s6))"

subsection \<open>The run endpoint\<close>

text \<open>The name filter the handler computes into \<^verbatim>\<open>effectiveGrep\<close>. Without a file
  pattern it is the \<^verbatim>\<open>grep\<close> parameter. With one, \<^verbatim>\<open>fileGrep\<close> anchors the alternatives
  of the escaped suite titles at the start, and a \<^verbatim>\<open>grep\<close> parameter is combined with
  it as two lookaheads.\<close>

definition fileGrep :: "string list \<Rightarrow> string" where
  "fileGrep fileSuites = ''^('' @ join ''|'' fileSuites @ '')''"

definition effectiveGrep :: "string \<Rightarrow> string \<Rightarrow> string list \<Rightarrow> string" where
  "effectiveGrep grepPattern filePattern fileSuites =
     (if filePattern \<noteq> [] then
        (if grepPattern \<noteq> []
         then ''(?='' @ fileGrep fileSuites @ '')(?=.*'' @ grepPattern @ '')''
         else fileGrep fileSuites)
      else grepPattern)"

text \<open>The text of the \<^verbatim>\<open>start\<close> event; \<^verbatim>\<open>filePattern.split('/').pop()\<close> is the last
  segment of the file pattern.\<close>

definition description :: "string \<Rightarrow> string \<Rightarrow> string" where
  "description grepPattern filePattern =
     (if filePattern \<noteq> [] then
        (let filename = last (split (CHR ''/'') filePattern)
         in if grepPattern \<noteq> [] then filename @ '' ('' @ grepPattern @ '')'' else filename)
      else (if grepPattern \<noteq> [] then grepPattern else ''all tests''))"

text \<open>The handler of the run endpoint, from the parsed query on. The search for the
  suites of the file only happens for a non-empty file pattern.\<close>

definition handleRun :: "query \<Rightarrow> conn \<Rightarrow> daemon \<Rightarrow> result" where
  "handleRun q r s =
     (let grepPattern = orDefault (q_grep q) [];
          filePattern = orDefault (q_file q) [];
          invert = (q_invert q = Some ''1'');
          options = \<lparr>opt_reporter = orDefault (q_reporter q) ''spec'',
                     opt_snapshotUpdate = (q_snapshotUpdate q = Some ''1''),
                     opt_bail = (q_bail q = Some ''1'')\<rparr>;
          s1 = res_call r WriteHead s;
          fileSuites = (if filePattern \<noteq> [] then findSuitesForFile (m_suite (mocha s1)) filePattern
                        else [])
      in if filePattern \<noteq> [] \<and> fileSuites = [] then
           Returned
             (res_end r
               (res_write r (DoneEvent (JNumber 1))
                 (res_write r (ErrorEvent (''No tests found for file: '' @ filePattern)) s1)))
         else
           runDaemonTests (effectiveGrep grepPattern filePattern fileSuites) invert r options
             (res_write r (StartEvent (description grepPattern filePattern) invert) s1))"

subsection \<open>What can happen while the daemon is up\<close>

text \<open>The events the daemon reacts to apart from the completion callback of a run:
  writes to the two output streams by the tests and the reporter, the heartbeat timer,
  the \<^verbatim>\<open>close\<close> event of a response that \<^verbatim>\<open>runDaemonTests\<close> put its listener on, a
  termination signal, and requests to the run endpoint. An exception that leaves the
  handler of the endpoint is caught by the web server, so the daemon goes on in the state
  the handler left. A sequence of events has no state when it holds a request that the
  model does not follow.\<close>

datatype action =
    StdoutWrite string
  | StderrWrite string
  | HeartbeatTick
  | ConnClose
  | Signal string
  | RunRequest query conn

fun step :: "action \<Rightarrow> daemon \<Rightarrow> daemon option" where
  "step (StdoutWrite chunk) s = Some (processStdoutWrite chunk s)"
| "step (StderrWrite chunk) s = Some (processStderrWrite chunk s)"
| "step HeartbeatTick s = Some (heartbeatTick s)"
| "step ConnClose s = Some (onClose s)"
| "step (Signal signal) s = Some (shutdown signal s)"
| "step (RunRequest q r) s =
     (case handleRun q r s of
        Returned s' \<Rightarrow> Some s'
      | Threw s' \<Rightarrow> Some s'
      | NotFollowed \<Rightarrow> None)"

fun steps :: "action list \<Rightarrow> daemon \<Rightarrow> daemon option" where
  "steps [] s = Some s"
| "steps (a # acts) s = (case step a s of None \<Rightarrow> None | Some s' \<Rightarrow> steps acts s')"

text \<open>The daemon right after start-up, with a registry to serve.\<close>

definition initialDaemon :: "suite \<Rightarrow> daemon" where
  "initialDaemon root =
     \<lparr>daemonTestsRunning = False, clientDisconnected = False, shuttingDown = False,
      activeConnections = [], SNAPSHOT_UPDATE = None,
      mocha = \<lparr>m_suite = root, m_grep = [], m_invert = False, m_bail = False, m_color = True,
               m_reporter = ''spec'', m_resetCount = 0, m_runCount = 0\<rparr>,
      serverReporter = None, isAppTest = False, serverTestsDone = False, clientLines = [],
      intercept = None, stdout = [], stderr = [], responses = (\<lambda>r. [])\<rparr>"

subsection \<open>The one-shot server run\<close>

text \<open>The callback that \<^verbatim>\<open>serverTests\<close> passes to the runner outside daemon mode: the
  line it logs, if any, and the failure count it hands to \<^verbatim>\<open>exitIfDone('server', ...)\<close>.\<close>

definition serverTestsCallback :: "js_value \<Rightarrow> string list \<times> js_value" where
  "serverTestsCallback failureCount =
     (if \<not> isNumber failureCount
      then ([''Mocha did not return a failure count for server tests as expected''], JNumber 1)
      else ([], failureCount))"

subsection \<open>Predicates used in the statements\<close>

text \<open>The state a call left when it returned, and the state it left when it threw.\<close>

definition returned :: "result \<Rightarrow> daemon option" where
  "returned x = (case x of Returned s \<Rightarrow> Some s | _ \<Rightarrow> None)"

definition thrown :: "result \<Rightarrow> daemon option" where
  "thrown x = (case x of Threw s \<Rightarrow> Some s | _ \<Rightarrow> None)"

text \<open>A request names a file pattern for which the registry has no suite.\<close>

definition noSuitesForFile :: "query \<Rightarrow> daemon \<Rightarrow> bool" where
  "noSuitesForFile q s =
     (orDefault (q_file q) [] \<noteq> []
      \<and> findSuitesForFile (m_suite (mocha s)) (orDefault (q_file q) []) = [])"

text \<open>The calls the handler makes on the response of such a request.\<close>

definition noTestsCalls :: "query \<Rightarrow> res_call list" where
  "noTestsCalls q =
     [WriteHead, Write (ErrorEvent (''No tests found for file: '' @ orDefault (q_file q) [])),
      Write (DoneEvent (JNumber 1)), End]"

text \<open>For any other request: the name filter and the options with which the handler
  calls \<^verbatim>\<open>runDaemonTests\<close>, and the calls it makes on the response before that.\<close>

definition requestGrep :: "query \<Rightarrow> daemon \<Rightarrow> string" where
  "requestGrep q s =
     effectiveGrep (orDefault (q_grep q) []) (orDefault (q_file q) [])
       (if orDefault (q_file q) [] \<noteq> []
        then findSuitesForFile (m_suite (mocha s)) (orDefault (q_file q) []) else [])"

definition requestOptions :: "query \<Rightarrow> run_options" where
  "requestOptions q =
     \<lparr>opt_reporter = orDefault (q_reporter q) ''spec'',
      opt_snapshotUpdate = (q_snapshotUpdate q = Some ''1''),
      opt_bail = (q_bail q = Some ''1'')\<rparr>"

definition startCalls :: "query \<Rightarrow> res_call list" where
  "startCalls q =
     [WriteHead,
      Write (StartEvent (description (orDefault (q_grep q) []) (orDefault (q_file q) []))
               (q_invert q = Some ''1''))]"

text \<open>A \<^verbatim>\<open>log\<close> event written to a response.\<close>

definition isLogCall :: "res_call \<Rightarrow> bool" where
  "isLogCall c = (case c of Write (LogEvent x) \<Rightarrow> True | _ \<Rightarrow> False)"

text \<open>A run is in flight on response \<open>r\<close>: it was started with the environment toggle
  at \<open>previous\<close> and with the JSON reporter selected or not, and its completion callback
  has not run yet.\<close>

definition runInFlight :: "conn \<Rightarrow> string option \<Rightarrow> bool \<Rightarrow> daemon \<Rightarrow> bool" where
  "runInFlight r previous json s =
     (daemonTestsRunning s \<and>
      (case intercept s of
         None \<Rightarrow> False
       | Some c \<Rightarrow> res c = r \<and> previousSnapshotUpdate c = previous \<and> useJsonReporter c = json))"

text \<open>The content of \<^verbatim>\<open>jsonBuffer\<close> of the run in flight.\<close>

definition currentJsonBuffer :: "daemon \<Rightarrow> string" where
  "currentJsonBuffer s = (case intercept s of None \<Rightarrow> [] | Some c \<Rightarrow> jsonBuffer c)"

text \<open>What the completion callback sends for the outcome of the reset of the
  collections: nothing when it succeeded, the line of \<^verbatim>\<open>console.error\<close> when it threw
  (the line goes through the replaced \<^verbatim>\<open>process.stderr.write\<close>).\<close>

definition resetErrorCalls :: "string option \<Rightarrow> res_call list" where
  "resetErrorCalls e =
     (case e of
        None \<Rightarrow> []
      | Some msg \<Rightarrow> [Write (ErrorEvent (''[daemon] Failed to reset collections: '' @ msg))])"

subsection \<open>A small registry and some states of the daemon\<close>

definition exampleRoot :: suite where
  "exampleRoot =
     Suite [] None []
       [Suite ''A'' (Some ''x/a.spec.ts'') ''A'' [],
        Suite ''B (beta)'' (Some ''/x/b.spec.ts'') ''B (beta)''
          [Suite ''C'' None ''B (beta) C'' []]]"

definition jsonOptions :: run_options where
  "jsonOptions = \<lparr>opt_reporter = ''json'', opt_snapshotUpdate = True, opt_bail = False\<rparr>"

text \<open>A run with the JSON reporter in flight on connection 1: the state in which
  \<open>runDaemonTests\<close>, called with these options and no name filter, leaves the daemon
  right after start-up.\<close>

definition exampleRunning :: daemon where
  "exampleRunning =
     (initialDaemon exampleRoot)\<lparr>daemonTestsRunning := True, activeConnections := [1],
        SNAPSHOT_UPDATE := Some ''1'',
        mocha := (mocha (initialDaemon exampleRoot))\<lparr>m_color := False, m_reporter := ''json'',
           m_resetCount := 1, m_runCount := 1\<rparr>,
        intercept := Some \<lparr>res = 1, previousSnapshotUpdate = None, useJsonReporter = True,
           jsonBuffer = [], heartbeat = True\<rparr>\<rparr>"

text \<open>The same run after SIGTERM arrived: the run is still in flight and the
  shutdown flag is set.\<close>

definition exampleRunningShutdown :: daemon where
  "exampleRunningShutdown = shutdown ''SIGTERM'' exampleRunning"

text \<open>An idle daemon after SIGTERM.\<close>

definition exampleIdleShutdown :: daemon where
  "exampleIdleShutdown = shutdown ''SIGTERM'' (initialDaemon exampleRoot)"

text \<open>Output during a run: the reporter writes a JSON text in two chunks to the
  standard output, and a test writes a line to the standard error in between.\<close>

definition exampleActs :: "action list" where
  "exampleActs = [StdoutWrite '' {}'', StderrWrite (''warn'' @ [newline]), StdoutWrite [newline]]"

text \<open>Requests to the run endpoint: one without parameters, one for a file that no suite
  comes from, and one with \<^verbatim>\<open>snapshotUpdate=1\<close> and the name pattern \<^verbatim>\<open>(\<close>, which is not a
  regular expression.\<close>

definition emptyQuery :: query where
  "emptyQuery = \<lparr>q_grep = None, q_file = None, q_invert = None, q_reporter = None,
      q_snapshotUpdate = None, q_bail = None\<rparr>"

definition exampleQueryNoFile :: query where
  "exampleQueryNoFile = emptyQuery\<lparr>q_file := Some ''nonexistent/path.ts''\<rparr>"

definition exampleQueryInvalid :: query where
  "exampleQueryInvalid = emptyQuery\<lparr>q_grep := Some ''('', q_snapshotUpdate := Some ''1''\<rparr>"

text \<open>The state in which the handler leaves the daemon right after start-up when it
  throws on the last of these requests, made on connection 1.\<close>

definition exampleWedged :: daemon where
  "exampleWedged =
     (initialDaemon exampleRoot)\<lparr>daemonTestsRunning := True, activeConnections := [1],
        SNAPSHOT_UPDATE := Some ''1'',
        mocha := (mocha (initialDaemon exampleRoot))\<lparr>m_resetCount := 1\<rparr>,
        responses := (\<lambda>c. if c = 1 then [WriteHead, Write (StartEvent ''('' False)] else [])\<rparr>"

subsection \<open>Notions used in the statements about filters\<close>

text \<open>The tree of a pattern that spells a string character by character, and the tree of
  the alternatives of several such patterns.\<close>

fun literal :: "string \<Rightarrow> regex" where
  "literal [] = Empty"
| "literal (c # cs) = Seq (Chr c) (literal cs)"

fun literalAlternatives :: "string list \<Rightarrow> regex" where
  "literalAlternatives [] = Empty"
| "literalAlternatives [t] = literal t"
| "literalAlternatives (t # u # us) = Alt (literal t) (literalAlternatives (u # us))"

text \<open>The tokens of the alternatives of several literal titles.\<close>

fun literalTokens :: "string list \<Rightarrow> token list" where
  "literalTokens [] = []"
| "literalTokens [t] = map TChar t"
| "literalTokens (t # u # us) = map TChar t @ TBar # literalTokens (u # us)"

text \<open>The titles that \<open>findSuites\<close> collects, before they are escaped.\<close>

fun findSuiteTitles :: "string \<Rightarrow> suite \<Rightarrow> string option \<Rightarrow> string list" where
  "findSuiteTitles normalizedPattern (Suite t f ft cs) parentFile =
     (case orElse f parentFile of
        None \<Rightarrow> []
      | Some fl \<Rightarrow>
          if fl \<noteq> [] \<and> pathMatchesPattern (normalizePath fl) normalizedPattern \<and> t \<noteq> []
          then [ft] else [])
     @ concat (map (\<lambda>child. findSuiteTitles normalizedPattern child (orElse f parentFile)) cs)"

definition suiteTitlesForFile :: "suite \<Rightarrow> string \<Rightarrow> string list" where
  "suiteTitlesForFile root filePattern = findSuiteTitles (normalizePath filePattern) root None"

text \<open>A request to the run endpoint with a file pattern and a name pattern that has two
  alternatives, and one with the same name pattern and no file pattern.\<close>

definition exampleQueryAlternation :: query where
  "exampleQueryAlternation = \<lparr>q_grep = Some ''a|b'', q_file = Some ''x/a.spec.ts'',
      q_invert = None, q_reporter = None, q_snapshotUpdate = None, q_bail = None\<rparr>"

definition exampleQueryGrepOnly :: query where
  "exampleQueryGrepOnly = emptyQuery\<lparr>q_grep := Some ''a|b''\<rparr>"

text \<open>A tree with a single alternative at the top: the pattern has no bar outside its
  groups.\<close>

definition singleAlternative :: "regex \<Rightarrow> bool" where
  "singleAlternative x = (case x of Alt a b \<Rightarrow> False | _ \<Rightarrow> True)"

text \<open>Token lists at which an alternative ends, and token lists at which a
  disjunction inside a group ends.\<close>

definition stops :: "token list \<Rightarrow> bool" where
  "stops rest = (case rest of [] \<Rightarrow> True | x # xs \<Rightarrow> x = TBar \<or> x = TClose)"

definition closes :: "token list \<Rightarrow> bool" where
  "closes rest = (case rest of [] \<Rightarrow> True | x # xs \<Rightarrow> x = TClose)"

section \<open>Verification\<close>

subsection \<open>The path matcher is a search for a contiguous run of whole segments\<close>

lemma splitAcc_nonempty: "splitAcc sep acc s \<noteq> []"
  by (induction s arbitrary: acc) auto

lemma segments_nonempty: "segments x \<noteq> []"
  by (simp add: segments_def split_def splitAcc_nonempty)

lemma innerLoop_iff:
  "innerLoop fs ps start i \<longleftrightarrow> (\<forall>k. i \<le> k \<and> k < length ps \<longrightarrow> fs ! (start + k) = ps ! k)"
proof (induction fs ps start i rule: innerLoop.induct)
  case (1 fs ps start i)
  show ?case
  proof (cases "i < length ps")
    case False
    then show ?thesis by (subst innerLoop.simps) auto
  next
    case True
    show ?thesis
    proof (cases "fs ! (start + i) = ps ! i")
      case False
      with True show ?thesis by (subst innerLoop.simps) auto
    next
      case eq: True
      have "innerLoop fs ps start i = innerLoop fs ps start (i + 1)"
        using True eq by (subst innerLoop.simps) simp
      also have "\<dots> \<longleftrightarrow> (\<forall>k. i + 1 \<le> k \<and> k < length ps \<longrightarrow> fs ! (start + k) = ps ! k)"
        using "1.IH" True eq by simp
      also have "\<dots> \<longleftrightarrow> (\<forall>k. i \<le> k \<and> k < length ps \<longrightarrow> fs ! (start + k) = ps ! k)"
      proof
        assume h: "\<forall>k. i + 1 \<le> k \<and> k < length ps \<longrightarrow> fs ! (start + k) = ps ! k"
        show "\<forall>k. i \<le> k \<and> k < length ps \<longrightarrow> fs ! (start + k) = ps ! k"
        proof (intro allI impI)
          fix k assume k: "i \<le> k \<and> k < length ps"
          show "fs ! (start + k) = ps ! k"
          proof (cases "k = i")
            case True
            with eq show ?thesis by simp
          next
            case False
            with k h show ?thesis by simp
          qed
        qed
      next
        assume "\<forall>k. i \<le> k \<and> k < length ps \<longrightarrow> fs ! (start + k) = ps ! k"
        then show "\<forall>k. i + 1 \<le> k \<and> k < length ps \<longrightarrow> fs ! (start + k) = ps ! k"
          by simp
      qed
      finally show ?thesis .
    qed
  qed
qed

lemma outerLoop_iff:
  "outerLoop fs ps start \<longleftrightarrow>
     (\<exists>st. start \<le> st \<and> st \<le> length fs - length ps \<and> innerLoop fs ps st 0)"
proof (induction fs ps start rule: outerLoop.induct)
  case (1 fs ps start)
  show ?case
  proof (cases "start \<le> length fs - length ps")
    case False
    then show ?thesis by (subst outerLoop.simps) auto
  next
    case le: True
    show ?thesis
    proof (cases "innerLoop fs ps start 0")
      case True
      with le show ?thesis by (subst outerLoop.simps) auto
    next
      case False
      have "outerLoop fs ps start = outerLoop fs ps (start + 1)"
        using le False by (subst outerLoop.simps) simp
      also have "\<dots> \<longleftrightarrow>
          (\<exists>st. start + 1 \<le> st \<and> st \<le> length fs - length ps \<and> innerLoop fs ps st 0)"
        using "1.IH" le False by simp
      also have "\<dots> \<longleftrightarrow>
          (\<exists>st. start \<le> st \<and> st \<le> length fs - length ps \<and> innerLoop fs ps st 0)"
      proof
        assume "\<exists>st. start + 1 \<le> st \<and> st \<le> length fs - length ps \<and> innerLoop fs ps st 0"
        then obtain st where "start + 1 \<le> st" "st \<le> length fs - length ps" "innerLoop fs ps st 0"
          by blast
        then show "\<exists>st. start \<le> st \<and> st \<le> length fs - length ps \<and> innerLoop fs ps st 0"
          by (intro exI [of _ st]) simp
      next
        assume "\<exists>st. start \<le> st \<and> st \<le> length fs - length ps \<and> innerLoop fs ps st 0"
        then obtain st where st: "start \<le> st" "st \<le> length fs - length ps" "innerLoop fs ps st 0"
          by blast
        with False have "st \<noteq> start" by auto
        with st show "\<exists>st. start + 1 \<le> st \<and> st \<le> length fs - length ps \<and> innerLoop fs ps st 0"
          by (intro exI [of _ st]) simp
      qed
      finally show ?thesis .
    qed
  qed
qed

lemma run_at_iff_append:
  assumes "length ps \<le> length fs"
  shows "(\<exists>st. st \<le> length fs - length ps \<and> (\<forall>k < length ps. fs ! (st + k) = ps ! k))
          \<longleftrightarrow> (\<exists>pre post. fs = pre @ ps @ post)"
proof
  assume "\<exists>st. st \<le> length fs - length ps \<and> (\<forall>k < length ps. fs ! (st + k) = ps ! k)"
  then obtain st where st: "st \<le> length fs - length ps"
    and eq: "\<forall>k < length ps. fs ! (st + k) = ps ! k" by blast
  have len: "st + length ps \<le> length fs" using st assms by simp
  have "take (length ps) (drop st fs) = ps"
  proof (rule nth_equalityI)
    show "length (take (length ps) (drop st fs)) = length ps" using len by simp
  next
    fix i assume "i < length (take (length ps) (drop st fs))"
    then have i: "i < length ps" by simp
    with len eq show "take (length ps) (drop st fs) ! i = ps ! i" by simp
  qed
  then have "fs = take st fs @ ps @ drop (length ps) (drop st fs)"
    by (metis append_take_drop_id)
  then show "\<exists>pre post. fs = pre @ ps @ post" by blast
next
  assume "\<exists>pre post. fs = pre @ ps @ post"
  then obtain pre post where fs: "fs = pre @ ps @ post" by blast
  have "length pre \<le> length fs - length ps" using fs by simp
  moreover have "\<forall>k < length ps. fs ! (length pre + k) = ps ! k"
    using fs by (simp add: nth_append)
  ultimately show "\<exists>st. st \<le> length fs - length ps \<and> (\<forall>k < length ps. fs ! (st + k) = ps ! k)"
    by blast
qed

lemma pathMatchesPattern_iff:
  "pathMatchesPattern f p \<longleftrightarrow> (\<exists>pre post. segments f = pre @ segments p @ post)"
proof (cases "length (segments p) \<le> length (segments f)")
  case True
  have "pathMatchesPattern f p \<longleftrightarrow> outerLoop (segments f) (segments p) 0"
    using True by (simp add: pathMatchesPattern_def Let_def)
  also have "\<dots> \<longleftrightarrow> (\<exists>st. st \<le> length (segments f) - length (segments p) \<and>
      (\<forall>k < length (segments p). segments f ! (st + k) = segments p ! k))"
    by (simp add: outerLoop_iff innerLoop_iff)
  also have "\<dots> \<longleftrightarrow> (\<exists>pre post. segments f = pre @ segments p @ post)"
    by (rule run_at_iff_append [OF True])
  finally show ?thesis .
next
  case False
  then have "\<not> pathMatchesPattern f p"
    by (simp add: pathMatchesPattern_def Let_def)
  moreover have "\<not> (\<exists>pre post. segments f = pre @ segments p @ post)"
  proof
    assume "\<exists>pre post. segments f = pre @ segments p @ post"
    then obtain pre post where "segments f = pre @ segments p @ post" by blast
    then have "length (segments f) = length pre + length (segments p) + length post"
      by simp
    with False show False by simp
  qed
  ultimately show ?thesis by simp
qed

text \<open>
  Claim C3. For all file paths \<open>f\<close> and patterns \<open>p\<close>, read as their segment sequences
  (split at slashes after the trailing slashes are stripped), \<open>pathMatchesPattern f p\<close>
  is true exactly when the segments of \<open>p\<close> occur as a contiguous run of whole segments
  somewhere in the segments of \<open>f\<close>. In particular it is false whenever \<open>p\<close> has more
  segments than \<open>f\<close>; the pattern \<open>abc/def\<close> matches \<open>x/abc/def/file.ts\<close> and matches
  neither \<open>x/abc/defg/file.ts\<close> nor \<open>x/abcd/def/file.ts\<close>.
\<close>

theorem pathMatchesPattern_contiguous_segments:
  "(pathMatchesPattern f p \<longleftrightarrow> (\<exists>pre post. segments f = pre @ segments p @ post))
   \<and> (length (segments p) > length (segments f) \<longrightarrow> \<not> pathMatchesPattern f p)
   \<and> pathMatchesPattern ''x/abc/def/file.ts'' ''abc/def''
   \<and> \<not> pathMatchesPattern ''x/abc/defg/file.ts'' ''abc/def''
   \<and> \<not> pathMatchesPattern ''x/abcd/def/file.ts'' ''abc/def''"
proof (intro conjI)
  show "pathMatchesPattern f p \<longleftrightarrow> (\<exists>pre post. segments f = pre @ segments p @ post)"
    by (rule pathMatchesPattern_iff)
  show "length (segments p) > length (segments f) \<longrightarrow> \<not> pathMatchesPattern f p"
    by (simp add: pathMatchesPattern_def Let_def)
  show "pathMatchesPattern ''x/abc/def/file.ts'' ''abc/def''"
    by code_simp
  show "\<not> pathMatchesPattern ''x/abc/defg/file.ts'' ''abc/def''"
    by code_simp
  show "\<not> pathMatchesPattern ''x/abcd/def/file.ts'' ''abc/def''"
    by code_simp
qed

theorem pathMatchesPattern_contiguous_segments_witness:
  "length (segments ''a/b/c'') > length (segments ''b/c/'')
   \<and> \<not> pathMatchesPattern ''b/c/'' ''a/b/c''
   \<and> segments ''b/c/'' = [''b'', ''c'']
   \<and> pathMatchesPattern ''x/b/c/y'' ''b/c/''"
proof -
  have len: "length (segments ''a/b/c'') > length (segments ''b/c/'')"
    by code_simp
  have seg: "segments ''b/c/'' = [''b'', ''c'']"
    by code_simp
  have segf: "segments ''x/b/c/y'' = [''x''] @ segments ''b/c/'' @ [''y'']"
    by code_simp
  from pathMatchesPattern_contiguous_segments [of "''b/c/''" "''a/b/c''"] len
  have no: "\<not> pathMatchesPattern ''b/c/'' ''a/b/c''" by blast
  from pathMatchesPattern_contiguous_segments [of "''x/b/c/y''" "''b/c/''"] segf
  have yes: "pathMatchesPattern ''x/b/c/y'' ''b/c/''" by blast
  from len no seg yes show ?thesis by simp
qed

subsection \<open>The run coordinator: effects of the single operations\<close>

lemmas prim_defs = res_write_def res_end_def res_call_def processStdoutWrite_def
  processStderrWrite_def console_log_def console_error_def

lemma stripTrailingNewline_snoc [simp]: "stripTrailingNewline (line @ [newline]) = line"
  by (simp add: stripTrailingNewline_def)

lemma end_write_eq:
  "res_end r (res_write r e t) = t\<lparr>responses := (responses t)(r := responses t r @ [Write e, End])\<rparr>"
  by (simp add: prim_defs)

lemma fold_shutdown_writes:
  "fold (\<lambda>r t. res_end r (res_write r e t)) xs s =
   s\<lparr>responses := (\<lambda>q. responses s q @ concat (map (\<lambda>r. if r = q then [Write e, End] else []) xs))\<rparr>"
proof (induction xs arbitrary: s)
  case Nil
  show ?case by simp
next
  case (Cons x xs)
  have "fold (\<lambda>r t. res_end r (res_write r e t)) (x # xs) s
      = fold (\<lambda>r t. res_end r (res_write r e t)) xs (res_end x (res_write x e s))"
    by simp
  also have "\<dots> = (res_end x (res_write x e s))\<lparr>responses :=
      (\<lambda>q. responses (res_end x (res_write x e s)) q
            @ concat (map (\<lambda>r. if r = q then [Write e, End] else []) xs))\<rparr>"
    by (rule Cons.IH)
  also have "\<dots> = s\<lparr>responses :=
      (\<lambda>q. responses s q @ concat (map (\<lambda>r. if r = q then [Write e, End] else []) (x # xs)))\<rparr>"
    by (auto simp: end_write_eq fun_eq_iff)
  finally show ?case .
qed

lemma console_log_spec:
  "intercept s = Some c \<Longrightarrow> \<not> useJsonReporter c \<Longrightarrow>
   console_log l s = s\<lparr>stdout := stdout s @ [l @ [newline]],
       responses := (responses s)(res c := responses s (res c) @ [Write (LogEvent l)])\<rparr>"
  by (simp add: prim_defs)

lemma console_log_json:
  "intercept s = Some c \<Longrightarrow> useJsonReporter c \<Longrightarrow>
   console_log l s = s\<lparr>intercept := Some (c\<lparr>jsonBuffer := jsonBuffer c @ l @ [newline]\<rparr>),
       stdout := stdout s @ [l @ [newline]]\<rparr>"
  by (simp add: prim_defs)

lemma console_log_plain:
  "intercept s = None \<Longrightarrow> console_log l s = s\<lparr>stdout := stdout s @ [l @ [newline]]\<rparr>"
  by (simp add: prim_defs)

lemma fold_console_log_spec:
  "intercept s = Some c \<Longrightarrow> \<not> useJsonReporter c \<Longrightarrow>
   fold console_log ls s = s\<lparr>stdout := stdout s @ map (\<lambda>l. l @ [newline]) ls,
       responses := (responses s)(res c := responses s (res c) @ map (\<lambda>l. Write (LogEvent l)) ls)\<rparr>"
proof (induction ls arbitrary: s)
  case Nil
  show ?case by simp
next
  case (Cons l ls)
  let ?s1 = "console_log l s"
  have s1: "?s1 = s\<lparr>stdout := stdout s @ [l @ [newline]],
       responses := (responses s)(res c := responses s (res c) @ [Write (LogEvent l)])\<rparr>"
    using Cons.prems by (rule console_log_spec)
  have i1: "intercept ?s1 = Some c" by (simp add: s1 Cons.prems)
  have "fold console_log (l # ls) s = fold console_log ls ?s1" by simp
  also have "\<dots> = ?s1\<lparr>stdout := stdout ?s1 @ map (\<lambda>l. l @ [newline]) ls,
       responses := (responses ?s1)(res c := responses ?s1 (res c) @ map (\<lambda>l. Write (LogEvent l)) ls)\<rparr>"
    using i1 Cons.prems(2) by (rule Cons.IH)
  also have "\<dots> = s\<lparr>stdout := stdout s @ map (\<lambda>l. l @ [newline]) (l # ls),
       responses := (responses s)(res c := responses s (res c) @ map (\<lambda>l. Write (LogEvent l)) (l # ls))\<rparr>"
    by (simp add: s1)
  finally show ?case .
qed

lemma printHeader_server:
  "intercept s = Some c \<Longrightarrow> \<not> useJsonReporter c \<Longrightarrow>
   printHeader ''SERVER'' s =
     s\<lparr>stdout := stdout s @ map (\<lambda>l. l @ [newline]) (headerLines (isAppTest s) ''SERVER''),
       responses := (responses s)(res c := responses s (res c)
          @ map (\<lambda>l. Write (LogEvent l)) (headerLines (isAppTest s) ''SERVER''))\<rparr>"
  by (simp add: printHeader_def fold_console_log_spec)

lemma stdoutWrite_frame [simp]:
  "daemonTestsRunning (processStdoutWrite ch s) = daemonTestsRunning s"
  "clientDisconnected (processStdoutWrite ch s) = clientDisconnected s"
  "shuttingDown (processStdoutWrite ch s) = shuttingDown s"
  "activeConnections (processStdoutWrite ch s) = activeConnections s"
  "SNAPSHOT_UPDATE (processStdoutWrite ch s) = SNAPSHOT_UPDATE s"
  "mocha (processStdoutWrite ch s) = mocha s"
  "stderr (processStdoutWrite ch s) = stderr s"
  "stdout (processStdoutWrite ch s) = stdout s @ [ch]"
  by (simp_all add: processStdoutWrite_def res_write_def res_call_def Let_def split: option.splits)

lemma stderrWrite_frame [simp]:
  "daemonTestsRunning (processStderrWrite ch s) = daemonTestsRunning s"
  "clientDisconnected (processStderrWrite ch s) = clientDisconnected s"
  "shuttingDown (processStderrWrite ch s) = shuttingDown s"
  "activeConnections (processStderrWrite ch s) = activeConnections s"
  "SNAPSHOT_UPDATE (processStderrWrite ch s) = SNAPSHOT_UPDATE s"
  "mocha (processStderrWrite ch s) = mocha s"
  "intercept (processStderrWrite ch s) = intercept s"
  "stdout (processStderrWrite ch s) = stdout s"
  "stderr (processStderrWrite ch s) = stderr s @ [ch]"
  by (simp_all add: processStderrWrite_def res_write_def res_call_def Let_def split: option.splits)

lemma stdoutWrite_runInFlight [simp]:
  "runInFlight r p j (processStdoutWrite ch s) = runInFlight r p j s"
  by (simp add: runInFlight_def processStdoutWrite_def res_write_def res_call_def Let_def
      split: option.splits)

lemma stdoutWrite_buffer:
  "runInFlight r p True s \<Longrightarrow>
   currentJsonBuffer (processStdoutWrite ch s) = currentJsonBuffer s @ ch"
  by (simp add: runInFlight_def currentJsonBuffer_def processStdoutWrite_def Let_def
      split: option.splits)

lemma stdoutWrite_responses_json:
  "runInFlight r p True s \<Longrightarrow> responses (processStdoutWrite ch s) = responses s"
  by (simp add: runInFlight_def processStdoutWrite_def Let_def split: option.splits)

lemma stdoutWrite_responses_plain:
  "intercept s = None \<Longrightarrow> responses (processStdoutWrite ch s) = responses s"
  by (simp add: processStdoutWrite_def Let_def)

lemma stderrWrite_responses:
  "intercept s = Some c \<Longrightarrow>
   responses (processStderrWrite ch s) =
     (responses s)(res c := responses s (res c) @ [Write (ErrorEvent (stripTrailingNewline ch))])"
  by (simp add: processStderrWrite_def res_write_def res_call_def Let_def)

lemma res_call_frame [simp]:
  "daemonTestsRunning (res_call r x s) = daemonTestsRunning s"
  "clientDisconnected (res_call r x s) = clientDisconnected s"
  "shuttingDown (res_call r x s) = shuttingDown s"
  "activeConnections (res_call r x s) = activeConnections s"
  "SNAPSHOT_UPDATE (res_call r x s) = SNAPSHOT_UPDATE s"
  "mocha (res_call r x s) = mocha s"
  "intercept (res_call r x s) = intercept s"
  "stdout (res_call r x s) = stdout s"
  "stderr (res_call r x s) = stderr s"
  "responses (res_call r x s) = (responses s)(r := responses s r @ [x])"
  by (simp_all add: res_call_def)


lemma startRun_runInFlight:
  "daemonTestsRunning s \<Longrightarrow> runInFlight r previous useJson (startRun r previous useJson name s)"
  by (simp add: startRun_def runInFlight_def Let_def printHeader_server)

lemma startRun_env:
  "SNAPSHOT_UPDATE (startRun r previous useJson name s) = SNAPSHOT_UPDATE s"
  by (simp add: startRun_def Let_def printHeader_server)

lemma startRun_grep:
  "m_grep (mocha (startRun r previous useJson name s)) = m_grep (mocha s)"
  by (simp add: startRun_def Let_def printHeader_server)

lemma startRun_json:
  "stdout (startRun r previous True name s) = stdout s"
  "responses (startRun r previous True name s) = responses s"
  "currentJsonBuffer (startRun r previous True name s) = []"
  by (simp_all add: startRun_def Let_def currentJsonBuffer_def)

text \<open>A call of \<open>runDaemonTests\<close> on an idle daemon that returns has started a run.\<close>

text \<open>The outcome of \<open>runDaemonTests\<close> on an idle daemon, by what the runner does with the
  name filter.\<close>

lemma runDaemonTests_accepts:
  assumes "\<not> daemonTestsRunning s" "\<not> shuttingDown s" "mochaGrep g = Accepts"
    "mochaReporter (if opt_reporter options = ''json'' then ''json''
        else orDefault (serverReporter s) ''spec'') = Accepts"
  shows "runDaemonTests g invert r options s
      = Returned (startRun r (SNAPSHOT_UPDATE s) (opt_reporter options = ''json'')
          (if opt_reporter options = ''json'' then ''json''
           else orDefault (serverReporter s) ''spec'')
          (s\<lparr>daemonTestsRunning := True, clientDisconnected := False,
             activeConnections := setAdd r (activeConnections s),
             SNAPSHOT_UPDATE := (if opt_snapshotUpdate options then Some ''1'' else SNAPSHOT_UPDATE s),
             mocha := (mocha s)\<lparr>m_resetCount := Suc (m_resetCount (mocha s)), m_grep := g,
               m_invert := invert, m_bail := opt_bail options,
               m_color := (opt_reporter options \<noteq> ''json'')\<rparr>\<rparr>))"
proof (cases "opt_reporter options = ''json''")
  case True
  with assms show ?thesis
    by (cases "opt_snapshotUpdate options") (simp_all add: runDaemonTests_def Let_def)
next
  case False
  with assms show ?thesis
    by (cases "opt_snapshotUpdate options") (simp_all add: runDaemonTests_def Let_def)
qed

lemma runDaemonTests_throws:
  assumes "\<not> daemonTestsRunning s" "\<not> shuttingDown s" "mochaGrep g = Throws"
  shows "runDaemonTests g invert r options s
      = Threw (s\<lparr>daemonTestsRunning := True, clientDisconnected := False,
             activeConnections := setAdd r (activeConnections s),
             SNAPSHOT_UPDATE := (if opt_snapshotUpdate options then Some ''1'' else SNAPSHOT_UPDATE s),
             mocha := (mocha s)\<lparr>m_resetCount := Suc (m_resetCount (mocha s))\<rparr>\<rparr>)"
  using assms
  by (cases "opt_snapshotUpdate options") (simp_all add: runDaemonTests_def Let_def)

lemma runDaemonTests_started:
  assumes "\<not> daemonTestsRunning s" "\<not> shuttingDown s"
    "runDaemonTests g invert r options s = Returned s1"
  shows "mochaGrep g = Accepts"
    and "runInFlight r (SNAPSHOT_UPDATE s) (opt_reporter options = ''json'') s1"
    and "SNAPSHOT_UPDATE s1 = (if opt_snapshotUpdate options then Some ''1'' else SNAPSHOT_UPDATE s)"
    and "m_grep (mocha s1) = g"
    and "opt_reporter options = ''json'' \<longrightarrow>
           stdout s1 = stdout s \<and> responses s1 = responses s \<and> currentJsonBuffer s1 = []"
proof -
  from assms show g: "mochaGrep g = Accepts"
    by (auto simp: runDaemonTests_def Let_def split: verdict.splits)
  define name where "name = (if opt_reporter options = ''json'' then ''json''
      else orDefault (serverReporter s) ''spec'')"
  from assms g have n: "mochaReporter name = Accepts"
    by (auto simp: runDaemonTests_def Let_def name_def split: verdict.splits if_splits)
  define s4 where "s4 = s\<lparr>daemonTestsRunning := True, clientDisconnected := False,
      activeConnections := setAdd r (activeConnections s),
      SNAPSHOT_UPDATE := (if opt_snapshotUpdate options then Some ''1'' else SNAPSHOT_UPDATE s),
      mocha := (mocha s)\<lparr>m_resetCount := Suc (m_resetCount (mocha s)), m_grep := g,
         m_invert := invert, m_bail := opt_bail options,
         m_color := (opt_reporter options \<noteq> ''json'')\<rparr>\<rparr>"
  have "runDaemonTests g invert r options s
      = Returned (startRun r (SNAPSHOT_UPDATE s) (opt_reporter options = ''json'') name s4)"
    unfolding name_def s4_def using assms(1,2) g n [unfolded name_def]
    by (rule runDaemonTests_accepts)
  with assms(3) have s1: "s1 = startRun r (SNAPSHOT_UPDATE s) (opt_reporter options = ''json'') name s4"
    by simp
  have run4: "daemonTestsRunning s4" by (simp add: s4_def)
  show "runInFlight r (SNAPSHOT_UPDATE s) (opt_reporter options = ''json'') s1"
    unfolding s1 using run4 by (rule startRun_runInFlight)
  show "SNAPSHOT_UPDATE s1 = (if opt_snapshotUpdate options then Some ''1'' else SNAPSHOT_UPDATE s)"
    unfolding s1 startRun_env by (simp add: s4_def)
  show "m_grep (mocha s1) = g"
    unfolding s1 startRun_grep by (simp add: s4_def)
  show "opt_reporter options = ''json'' \<longrightarrow>
           stdout s1 = stdout s \<and> responses s1 = responses s \<and> currentJsonBuffer s1 = []"
  proof
    assume j: "opt_reporter options = ''json''"
    have "s1 = startRun r (SNAPSHOT_UPDATE s) True name s4" using s1 j by simp
    then show "stdout s1 = stdout s \<and> responses s1 = responses s \<and> currentJsonBuffer s1 = []"
      by (simp add: startRun_json s4_def)
  qed
qed

lemma runInFlight_start:
  assumes "\<not> daemonTestsRunning s" "\<not> shuttingDown s"
    "runDaemonTests g invert r options s = Returned s1"
  shows "runInFlight r (SNAPSHOT_UPDATE s) (opt_reporter options = ''json'') s1"
  using assms by (rule runDaemonTests_started(2))

lemma start_json:
  assumes "\<not> daemonTestsRunning s" "\<not> shuttingDown s" "opt_reporter options = ''json''"
    "runDaemonTests g invert r options s = Returned s1"
  shows "stdout s1 = stdout s" and "responses s1 = responses s" and "currentJsonBuffer s1 = []"
  using runDaemonTests_started(5) [OF assms(1,2,4)] assms(3) by simp_all

lemma start_env:
  assumes "\<not> daemonTestsRunning s" "\<not> shuttingDown s"
    "runDaemonTests g invert r options s = Returned s1"
  shows "SNAPSHOT_UPDATE s1 = (if opt_snapshotUpdate options then Some ''1'' else SNAPSHOT_UPDATE s)"
  using assms by (rule runDaemonTests_started(3))

lemma start_grep:
  assumes "\<not> daemonTestsRunning s" "\<not> shuttingDown s"
    "runDaemonTests g invert r options s = Returned s1"
  shows "m_grep (mocha s1) = g"
  using assms by (rule runDaemonTests_started(4))

lemma rejected_running:
  "daemonTestsRunning s \<Longrightarrow>
   runDaemonTests g invert r options s =
     Returned (s\<lparr>responses := (responses s)(r := responses s r @
        [Write (ErrorEvent ''Tests already running - wait or restart daemon''), End])\<rparr>)"
  by (simp add: runDaemonTests_def res_write_def res_end_def res_call_def)

lemma rejected_shutdown:
  "\<not> daemonTestsRunning s \<Longrightarrow> shuttingDown s \<Longrightarrow>
   runDaemonTests g invert r options s =
     Returned (s\<lparr>responses := (responses s)(r := responses s r @
        [Write (ShutdownEvent ''Server is shutting down''), End])\<rparr>)"
  by (simp add: runDaemonTests_def res_write_def res_end_def res_call_def)

subsection \<open>The run endpoint\<close>

lemma handleRun_no_tests:
  assumes "noSuitesForFile q s"
  shows "handleRun q r s
           = Returned (s\<lparr>responses := (responses s)(r := responses s r @ noTestsCalls q)\<rparr>)"
  using assms
  by (simp add: handleRun_def noSuitesForFile_def noTestsCalls_def Let_def res_write_def
      res_end_def res_call_def)

lemma handleRun_run:
  assumes "\<not> noSuitesForFile q s"
  shows "handleRun q r s
           = runDaemonTests (requestGrep q s) (q_invert q = Some ''1'') r (requestOptions q)
               (s\<lparr>responses := (responses s)(r := responses s r @ startCalls q)\<rparr>)"
proof -
  let ?fp = "orDefault (q_file q) []"
  let ?s1 = "res_call r WriteHead s"
  have cond: "\<not> (?fp \<noteq> [] \<and>
      (if ?fp \<noteq> [] then findSuitesForFile (m_suite (mocha s)) ?fp else []) = [])"
    using assms by (auto simp: noSuitesForFile_def)
  have "handleRun q r s = runDaemonTests (requestGrep q s) (q_invert q = Some ''1'') r
           (requestOptions q)
           (res_write r (StartEvent (description (orDefault (q_grep q) []) ?fp)
              (q_invert q = Some ''1'')) ?s1)"
    unfolding handleRun_def Let_def requestGrep_def requestOptions_def
    by (simp only: cond if_False res_call_frame)
  also have "res_write r (StartEvent (description (orDefault (q_grep q) []) ?fp)
              (q_invert q = Some ''1'')) ?s1
      = s\<lparr>responses := (responses s)(r := responses s r @ startCalls q)\<rparr>"
    by (simp add: res_write_def res_call_def startCalls_def)
  finally show ?thesis .
qed

lemma handleRun_running:
  assumes "daemonTestsRunning s"
  shows "handleRun q r s = Returned (s\<lparr>responses := (responses s)(r := responses s r @
           (if noSuitesForFile q s then noTestsCalls q
            else startCalls q
                 @ [Write (ErrorEvent ''Tests already running - wait or restart daemon''), End]))\<rparr>)"
proof (cases "noSuitesForFile q s")
  case True
  then show ?thesis by (simp add: handleRun_no_tests)
next
  case False
  have "daemonTestsRunning (s\<lparr>responses := (responses s)(r := responses s r @ startCalls q)\<rparr>)"
    using assms by simp
  from rejected_running [OF this] False show ?thesis
    by (simp add: handleRun_run)
qed

lemma handleRun_shutdown:
  assumes "\<not> daemonTestsRunning s" "shuttingDown s"
  shows "handleRun q r s = Returned (s\<lparr>responses := (responses s)(r := responses s r @
           (if noSuitesForFile q s then noTestsCalls q
            else startCalls q @ [Write (ShutdownEvent ''Server is shutting down''), End]))\<rparr>)"
proof (cases "noSuitesForFile q s")
  case True
  then show ?thesis by (simp add: handleRun_no_tests)
next
  case False
  have "\<not> daemonTestsRunning (s\<lparr>responses := (responses s)(r := responses s r @ startCalls q)\<rparr>)"
    "shuttingDown (s\<lparr>responses := (responses s)(r := responses s r @ startCalls q)\<rparr>)"
    using assms by simp_all
  from rejected_shutdown [OF this] False show ?thesis
    by (simp add: handleRun_run)
qed

lemma no_log_calls:
  "filter isLogCall (noTestsCalls q) = []"
  "filter isLogCall (startCalls q @ [Write (ErrorEvent x), End]) = []"
  "filter isLogCall (startCalls q @ [Write (ShutdownEvent y), End]) = []"
  by (simp_all add: noTestsCalls_def startCalls_def isLogCall_def)

text \<open>While a run is in flight or the daemon is shutting down, a request is answered
  and changes nothing but its own response.\<close>

lemma handleRun_rejected:
  assumes "daemonTestsRunning s \<or> shuttingDown s"
  shows "\<exists>evs. handleRun q r s
              = Returned (s\<lparr>responses := (responses s)(r := responses s r @ evs)\<rparr>)
           \<and> filter isLogCall evs = []"
proof (cases "daemonTestsRunning s")
  case True
  let ?evs = "(if noSuitesForFile q s then noTestsCalls q
            else startCalls q
                 @ [Write (ErrorEvent ''Tests already running - wait or restart daemon''), End])"
  have "filter isLogCall ?evs = []" by (simp add: noTestsCalls_def startCalls_def isLogCall_def)
  with handleRun_running [OF True, of q r] show ?thesis by blast
next
  case False
  with assms have sd: "shuttingDown s" by simp
  let ?evs = "(if noSuitesForFile q s then noTestsCalls q
            else startCalls q @ [Write (ShutdownEvent ''Server is shutting down''), End])"
  have "filter isLogCall ?evs = []" by (simp add: noTestsCalls_def startCalls_def isLogCall_def)
  with handleRun_shutdown [OF False sd, of q r] show ?thesis by blast
qed

lemma step_request_rejected:
  assumes "daemonTestsRunning s \<or> shuttingDown s"
  shows "\<exists>evs. step (RunRequest q r) s
              = Some (s\<lparr>responses := (responses s)(r := responses s r @ evs)\<rparr>)
           \<and> filter isLogCall evs = []"
proof -
  from handleRun_rejected [OF assms, of q r] obtain evs where
    "handleRun q r s = Returned (s\<lparr>responses := (responses s)(r := responses s r @ evs)\<rparr>)"
    "filter isLogCall evs = []" by blast
  then have "step (RunRequest q r) s
      = Some (s\<lparr>responses := (responses s)(r := responses s r @ evs)\<rparr>)
    \<and> filter isLogCall evs = []" by simp
  then show ?thesis by (rule exI)
qed

subsection \<open>Events while a run is in flight\<close>

lemma shutdown_eq:
  "\<not> shuttingDown s \<Longrightarrow>
   shutdown sg s =
     (let s2 = console_log (''[daemon] Received '' @ sg @ '', notifying clients...'')
                 (s\<lparr>shuttingDown := True\<rparr>)
      in s2\<lparr>responses := (\<lambda>q. responses s2 q
              @ concat (map (\<lambda>r. if r = q then [Write (ShutdownEvent sg), End] else [])
                  (activeConnections s))),
            activeConnections := []\<rparr>)"
  by (simp add: shutdown_def Let_def fold_shutdown_writes console_log_def)

lemma runInFlight_shuttingDown_update [simp]:
  "runInFlight r p j (s\<lparr>shuttingDown := b\<rparr>) = runInFlight r p j s"
  "runInFlight r p j (s\<lparr>clientDisconnected := b\<rparr>) = runInFlight r p j s"
  "runInFlight r p j (s\<lparr>activeConnections := xs\<rparr>) = runInFlight r p j s"
  "runInFlight r p j (s\<lparr>responses := f\<rparr>) = runInFlight r p j s"
  by (simp_all add: runInFlight_def)

lemma currentJsonBuffer_update [simp]:
  "currentJsonBuffer (s\<lparr>shuttingDown := b\<rparr>) = currentJsonBuffer s"
  "currentJsonBuffer (s\<lparr>clientDisconnected := b\<rparr>) = currentJsonBuffer s"
  "currentJsonBuffer (s\<lparr>activeConnections := xs\<rparr>) = currentJsonBuffer s"
  "currentJsonBuffer (s\<lparr>responses := f\<rparr>) = currentJsonBuffer s"
  by (simp_all add: currentJsonBuffer_def)

lemma stderrWrite_more [simp]:
  "runInFlight r p j (processStderrWrite ch s) = runInFlight r p j s"
  "currentJsonBuffer (processStderrWrite ch s) = currentJsonBuffer s"
  by (simp_all add: runInFlight_def currentJsonBuffer_def)

lemma heartbeatTick_eq:
  "heartbeatTick s = s \<or> (\<exists>r. heartbeatTick s = res_call r (Write HeartbeatEvent) s)"
  by (auto simp: heartbeatTick_def res_write_def split: option.splits)

lemma res_call_more [simp]:
  "runInFlight r p j (res_call r' x s) = runInFlight r p j s"
  "currentJsonBuffer (res_call r' x s) = currentJsonBuffer s"
  by (simp_all add: runInFlight_def currentJsonBuffer_def)

lemma step_inFlight:
  assumes "runInFlight r prev json s"
  shows "\<exists>s'. step a s = Some s' \<and> runInFlight r prev json s'
           \<and> SNAPSHOT_UPDATE s' = SNAPSHOT_UPDATE s"
proof (cases a)
  case (StdoutWrite chunk)
  with assms show ?thesis by simp
next
  case (StderrWrite chunk)
  with assms show ?thesis by simp
next
  case HeartbeatTick
  with assms heartbeatTick_eq [of s] show ?thesis by auto
next
  case ConnClose
  with assms show ?thesis by (simp add: onClose_def console_log_def)
next
  case (Signal sg)
  with assms show ?thesis
    by (cases "shuttingDown s") (simp_all add: shutdown_eq Let_def console_log_def, simp add: shutdown_def)
next
  case (RunRequest q r')
  from assms have "daemonTestsRunning s \<or> shuttingDown s" by (simp add: runInFlight_def)
  from step_request_rejected [OF this, of q r'] obtain evs where
    "step (RunRequest q r') s = Some (s\<lparr>responses := (responses s)(r' := responses s r' @ evs)\<rparr>)"
    by blast
  with assms RunRequest show ?thesis by simp
qed

lemma step_json_buffer:
  assumes "runInFlight r prev True s" "step a s = Some s'"
  shows "\<exists>new. stdout s' = stdout s @ new
           \<and> currentJsonBuffer s' = currentJsonBuffer s @ concat new"
proof (cases a)
  case (StdoutWrite chunk)
  with assms show ?thesis by (auto simp: stdoutWrite_buffer)
next
  case (StderrWrite chunk)
  with assms(2) show ?thesis by auto
next
  case HeartbeatTick
  with assms(2) heartbeatTick_eq [of s] show ?thesis by auto
next
  case ConnClose
  with assms show ?thesis
    by (auto simp: onClose_def console_log_def runInFlight_def stdoutWrite_buffer [OF assms(1)])
next
  case (Signal sg)
  show ?thesis
  proof (cases "shuttingDown s")
    case True
    with Signal assms(2) show ?thesis by (auto simp: shutdown_def)
  next
    case False
    have "runInFlight r prev True (s\<lparr>shuttingDown := True\<rparr>)" using assms(1) by simp
    from stdoutWrite_buffer [OF this] False Signal assms(2) show ?thesis
      by (auto simp: shutdown_eq Let_def console_log_def)
  qed
next
  case (RunRequest q r')
  from assms(1) have "daemonTestsRunning s \<or> shuttingDown s" by (simp add: runInFlight_def)
  from step_request_rejected [OF this, of q r'] obtain evs where
    "step (RunRequest q r') s = Some (s\<lparr>responses := (responses s)(r' := responses s r' @ evs)\<rparr>)"
    by blast
  with RunRequest assms(2) show ?thesis by auto
qed

lemma filter_shutdown_calls:
  "filter isLogCall (concat (map (\<lambda>r. if r = q then [Write (ShutdownEvent sg), End] else []) xs)) = []"
  by (induction xs) (auto simp: isLogCall_def)

lemma step_json_no_log:
  assumes "runInFlight r prev True s" "step a s = Some s'"
  shows "filter isLogCall (responses s' q) = filter isLogCall (responses s q)"
proof (cases a)
  case (StdoutWrite chunk)
  with assms show ?thesis by (auto simp: stdoutWrite_responses_json)
next
  case (StderrWrite chunk)
  from assms(1) obtain c where "intercept s = Some c"
    by (auto simp: runInFlight_def split: option.splits)
  with StderrWrite assms(2) show ?thesis by (auto simp: stderrWrite_responses isLogCall_def)
next
  case HeartbeatTick
  with assms(2) heartbeatTick_eq [of s] show ?thesis by (auto simp: isLogCall_def)
next
  case ConnClose
  with assms show ?thesis
    by (auto simp: onClose_def console_log_def runInFlight_def stdoutWrite_responses_json [OF assms(1)])
next
  case (Signal sg)
  show ?thesis
  proof (cases "shuttingDown s")
    case True
    with Signal assms(2) show ?thesis by (auto simp: shutdown_def)
  next
    case False
    have "runInFlight r prev True (s\<lparr>shuttingDown := True\<rparr>)" using assms(1) by simp
    from stdoutWrite_responses_json [OF this] False Signal assms(2) show ?thesis
      by (auto simp: shutdown_eq Let_def console_log_def filter_shutdown_calls)
  qed
next
  case (RunRequest q' r')
  from assms(1) have "daemonTestsRunning s \<or> shuttingDown s" by (simp add: runInFlight_def)
  from step_request_rejected [OF this, of q' r'] obtain evs where
    "step (RunRequest q' r') s = Some (s\<lparr>responses := (responses s)(r' := responses s r' @ evs)\<rparr>)"
    "filter isLogCall evs = []" by blast
  with RunRequest assms(2) show ?thesis by auto
qed

lemma steps_inFlight:
  "runInFlight r prev json s \<Longrightarrow>
   \<exists>s2. steps acts s = Some s2 \<and> runInFlight r prev json s2
      \<and> SNAPSHOT_UPDATE s2 = SNAPSHOT_UPDATE s"
proof (induction acts arbitrary: s)
  case Nil
  then show ?case by simp
next
  case (Cons a acts)
  from step_inFlight [OF Cons.prems, of a] obtain s' where
    s': "step a s = Some s'" "runInFlight r prev json s'" "SNAPSHOT_UPDATE s' = SNAPSHOT_UPDATE s"
    by blast
  from Cons.IH [OF s'(2)] obtain s2 where
    "steps acts s' = Some s2" "runInFlight r prev json s2" "SNAPSHOT_UPDATE s2 = SNAPSHOT_UPDATE s'"
    by blast
  with s' show ?case by simp
qed

lemma steps_json:
  "runInFlight r prev True s \<Longrightarrow> steps acts s = Some s2 \<Longrightarrow>
   (\<exists>new. stdout s2 = stdout s @ new \<and> currentJsonBuffer s2 = currentJsonBuffer s @ concat new)
   \<and> (\<forall>q. filter isLogCall (responses s2 q) = filter isLogCall (responses s q))"
proof (induction acts arbitrary: s)
  case Nil
  then show ?case by simp
next
  case (Cons a acts)
  from step_inFlight [OF Cons.prems(1), of a] obtain s' where
    s': "step a s = Some s'" "runInFlight r prev True s'" by blast
  with Cons.prems(2) have rest: "steps acts s' = Some s2" by simp
  from step_json_buffer [OF Cons.prems(1) s'(1)] obtain n1 where
    n1: "stdout s' = stdout s @ n1" "currentJsonBuffer s' = currentJsonBuffer s @ concat n1"
    by blast
  from Cons.IH [OF s'(2) rest] obtain n2 where
    n2: "stdout s2 = stdout s' @ n2" "currentJsonBuffer s2 = currentJsonBuffer s' @ concat n2"
    and log2: "\<And>q. filter isLogCall (responses s2 q) = filter isLogCall (responses s' q)"
    by blast
  from n1 n2 have "stdout s2 = stdout s @ (n1 @ n2)
      \<and> currentJsonBuffer s2 = currentJsonBuffer s @ concat (n1 @ n2)"
    by simp
  then have "\<exists>new. stdout s2 = stdout s @ new
      \<and> currentJsonBuffer s2 = currentJsonBuffer s @ concat new" by (rule exI)
  moreover have "filter isLogCall (responses s2 q) = filter isLogCall (responses s q)" for q
    using log2 [of q] step_json_no_log [OF Cons.prems(1) s'(1), of q] by simp
  ultimately show ?case by blast
qed

subsection \<open>The completion callback\<close>

lemma console_error_effect:
  "intercept s = Some c \<Longrightarrow>
   console_error l s = s\<lparr>stderr := stderr s @ [l @ [newline]],
       responses := (responses s)(res c := responses s (res c) @ [Write (ErrorEvent l)])\<rparr>"
  by (simp add: console_error_def processStderrWrite_def res_write_def res_call_def)

lemma callback_env:
  "runInFlight r prev json s \<Longrightarrow> SNAPSHOT_UPDATE (mochaRunCallback fc e s) = prev"
  by (cases e)
     (auto simp: runInFlight_def mochaRunCallback_def Let_def console_log_plain res_write_def
      res_end_def console_error_effect split: option.splits)

lemma callback_idle:
  "runInFlight r prev json s \<Longrightarrow>
   \<not> daemonTestsRunning (mochaRunCallback fc e s) \<and> intercept (mochaRunCallback fc e s) = None"
  by (cases e)
     (auto simp: runInFlight_def mochaRunCallback_def Let_def console_log_plain res_write_def
      res_end_def console_error_effect split: option.splits)

lemma callback_responses:
  assumes "runInFlight r prev json s"
  shows "responses (mochaRunCallback fc e s) r =
     responses s r @ resetErrorCalls e @
       (if clientDisconnected s then []
        else (if json \<and> currentJsonBuffer s \<noteq> [] then [Write (JsonEvent (trim (currentJsonBuffer s)))] else [])
             @ [Write (DoneEvent fc), End])"
proof -
  from assms obtain c where c: "intercept s = Some c" "res c = r" "useJsonReporter c = json"
    by (auto simp: runInFlight_def split: option.splits)
  show ?thesis
  proof (cases e)
    case None
    with c show ?thesis
      by (simp add: mochaRunCallback_def Let_def console_log_plain res_write_def res_end_def
          resetErrorCalls_def currentJsonBuffer_def)
  next
    case (Some msg)
    with c show ?thesis
      by (simp add: mochaRunCallback_def Let_def console_log_plain res_write_def res_end_def
          resetErrorCalls_def currentJsonBuffer_def console_error_effect)
  qed
qed

lemma callback_done_last:
  assumes "runInFlight r prev json s" "\<not> clientDisconnected s"
  shows "\<exists>pre. responses (mochaRunCallback fc e s) r = pre @ [Write (DoneEvent fc), End]"
proof -
  let ?j = "(if json \<and> currentJsonBuffer s \<noteq> [] then [Write (JsonEvent (trim (currentJsonBuffer s)))] else [])"
  have "responses (mochaRunCallback fc e s) r =
      (responses s r @ resetErrorCalls e @ ?j) @ [Write (DoneEvent fc), End]"
    using callback_responses [OF assms(1), of fc e] assms(2) by simp
  then show ?thesis by (rule exI)
qed

lemma callback_frame_other:
  assumes "runInFlight r0 prev json s" "r0 \<noteq> r"
  shows "responses (mochaRunCallback fc e (s\<lparr>responses := (responses s)(r := x)\<rparr>)) r0
           = responses (mochaRunCallback fc e s) r0"
proof -
  let ?s' = "s\<lparr>responses := (responses s)(r := x)\<rparr>"
  have run': "runInFlight r0 prev json ?s'" using assms(1) by simp
  show ?thesis
    unfolding callback_responses [OF run'] callback_responses [OF assms(1)]
    using assms(2) by simp
qed

subsection \<open>The example states\<close>

lemma initial_idle:
  "\<not> daemonTestsRunning (initialDaemon root)" "\<not> shuttingDown (initialDaemon root)"
  by (simp_all add: initialDaemon_def)

lemma mochaGrep_empty: "mochaGrep [] = Accepts"
  by code_simp

lemma mochaGrep_open_paren: "mochaGrep ''('' = Throws"
  by code_simp

lemma exampleRunning_start:
  "runDaemonTests [] False 1 jsonOptions (initialDaemon exampleRoot) = Returned exampleRunning"
proof -
  have n: "mochaReporter (if opt_reporter jsonOptions = ''json'' then ''json''
        else orDefault (serverReporter (initialDaemon exampleRoot)) ''spec'') = Accepts"
    by (simp add: jsonOptions_def mochaReporter_def)
  show ?thesis
    unfolding runDaemonTests_accepts [OF initial_idle mochaGrep_empty n]
    by (simp add: startRun_def Let_def exampleRunning_def initialDaemon_def jsonOptions_def
        setAdd_def)
qed

lemma exampleRunning_inFlight: "runInFlight 1 None True exampleRunning"
  by (simp add: exampleRunning_def runInFlight_def initialDaemon_def)

lemma exampleIdleShutdown_eq:
  "exampleIdleShutdown = (initialDaemon exampleRoot)\<lparr>shuttingDown := True,
      stdout := [''[daemon] Received SIGTERM, notifying clients...'' @ [newline]]\<rparr>"
  by (simp add: exampleIdleShutdown_def shutdown_def Let_def console_log_plain initialDaemon_def)

lemma exampleRunningShutdown_eq:
  "exampleRunningShutdown = exampleRunning\<lparr>shuttingDown := True, activeConnections := [],
      intercept := Some \<lparr>res = 1, previousSnapshotUpdate = None, useJsonReporter = True,
           jsonBuffer = ''[daemon] Received SIGTERM, notifying clients...'' @ [newline],
           heartbeat = True\<rparr>,
      stdout := [''[daemon] Received SIGTERM, notifying clients...'' @ [newline]],
      responses := (\<lambda>q. if q = 1 then [Write (ShutdownEvent ''SIGTERM''), End] else [])\<rparr>"
proof -
  have i: "intercept (exampleRunning\<lparr>shuttingDown := True\<rparr>) = Some \<lparr>res = 1, previousSnapshotUpdate = None, useJsonReporter = True,
           jsonBuffer = [], heartbeat = True\<rparr>"
    by (simp add: exampleRunning_def)
  have ns: "\<not> shuttingDown exampleRunning" by (simp add: exampleRunning_def initialDaemon_def)
  show ?thesis
    unfolding exampleRunningShutdown_def shutdown_eq [OF ns] Let_def
    by (simp add: console_log_json [OF i]) (auto simp add: exampleRunning_def initialDaemon_def fun_eq_iff)
qed

lemma emptyQuery_calls:
  "\<not> noSuitesForFile emptyQuery s"
  "startCalls emptyQuery = [WriteHead, Write (StartEvent ''all tests'' False)]"
  by (simp_all add: noSuitesForFile_def startCalls_def emptyQuery_def orDefault_def
      description_def)

lemma example_no_suites: "findSuitesForFile exampleRoot ''nonexistent/path.ts'' = []"
  unfolding exampleRoot_def by code_simp

lemma exampleQueryNoFile_calls:
  "m_suite (mocha s) = exampleRoot \<Longrightarrow> noSuitesForFile exampleQueryNoFile s"
  "noTestsCalls exampleQueryNoFile
     = [WriteHead, Write (ErrorEvent ''No tests found for file: nonexistent/path.ts''),
        Write (DoneEvent (JNumber 1)), End]"
  by (simp_all add: noSuitesForFile_def noTestsCalls_def exampleQueryNoFile_def emptyQuery_def
      orDefault_def example_no_suites)

subsection \<open>Requests while a run is in flight\<close>




subsection \<open>Requests after a termination signal\<close>

lemma step_shutdown_latch:
  assumes "shuttingDown s"
  shows "\<exists>s'. step a s = Some s' \<and> shuttingDown s'
           \<and> (\<not> daemonTestsRunning s \<longrightarrow> \<not> daemonTestsRunning s')"
proof (cases a)
  case (StdoutWrite chunk)
  with assms show ?thesis by simp
next
  case (StderrWrite chunk)
  with assms show ?thesis by simp
next
  case HeartbeatTick
  with assms heartbeatTick_eq [of s] show ?thesis by auto
next
  case ConnClose
  with assms show ?thesis by (simp add: onClose_def console_log_def)
next
  case (Signal sg)
  with assms show ?thesis by (simp add: shutdown_def)
next
  case (RunRequest q r')
  from assms have "daemonTestsRunning s \<or> shuttingDown s" by simp
  from step_request_rejected [OF this, of q r'] obtain evs where
    "step (RunRequest q r') s = Some (s\<lparr>responses := (responses s)(r' := responses s r' @ evs)\<rparr>)"
    by blast
  with assms RunRequest show ?thesis by simp
qed

lemma steps_shutdown_latch:
  "shuttingDown s \<Longrightarrow>
   \<exists>s2. steps acts s = Some s2 \<and> shuttingDown s2
      \<and> (\<not> daemonTestsRunning s \<longrightarrow> \<not> daemonTestsRunning s2)"
proof (induction acts arbitrary: s)
  case Nil
  then show ?case by simp
next
  case (Cons a acts)
  from step_shutdown_latch [OF Cons.prems, of a] obtain s' where
    s': "step a s = Some s'" "shuttingDown s'"
      "\<not> daemonTestsRunning s \<longrightarrow> \<not> daemonTestsRunning s'" by blast
  from Cons.IH [OF s'(2)] obtain s2 where
    "steps acts s' = Some s2" "shuttingDown s2"
    "\<not> daemonTestsRunning s' \<longrightarrow> \<not> daemonTestsRunning s2" by blast
  with s' show ?case by simp
qed

lemma callback_shuttingDown:
  "shuttingDown (mochaRunCallback fc e s) = shuttingDown s"
  by (cases e)
     (auto simp: mochaRunCallback_def Let_def console_log_def res_write_def res_end_def
        console_error_def split: option.splits)

lemma callback_not_running:
  "\<not> daemonTestsRunning s \<Longrightarrow> \<not> daemonTestsRunning (mochaRunCallback fc e s)"
  by (cases e)
     (auto simp: mochaRunCallback_def Let_def console_log_def res_write_def res_end_def
        console_error_def split: option.splits)




subsection \<open>A file without suites\<close>

text \<open>
  Claim C4. For a request to the run endpoint with a file pattern for which
  \<open>findSuitesForFile\<close> finds no suite, the handler writes exactly one error event (no tests
  found for the file) followed by a done event with one failure, ends the response and
  returns: the state is otherwise unchanged, in particular \<^verbatim>\<open>mochaInstance.run\<close> is not
  called.
\<close>

theorem no_tests_found_for_file:
  assumes "q_file q = Some fp" "fp \<noteq> []" "findSuitesForFile (m_suite (mocha s)) fp = []"
  shows "handleRun q r s = Returned (s\<lparr>responses := (responses s)(r := responses s r @
            [WriteHead, Write (ErrorEvent (''No tests found for file: '' @ fp)),
             Write (DoneEvent (JNumber 1)), End])\<rparr>)
         \<and> map_option (\<lambda>s'. m_runCount (mocha s')) (returned (handleRun q r s))
             = Some (m_runCount (mocha s))"
proof -
  have fp: "orDefault (q_file q) [] = fp" using assms(1,2) by (simp add: orDefault_def)
  have "noSuitesForFile q s" using assms(2,3) by (simp add: noSuitesForFile_def fp)
  then have "handleRun q r s
      = Returned (s\<lparr>responses := (responses s)(r := responses s r @ noTestsCalls q)\<rparr>)"
    by (rule handleRun_no_tests)
  then have eq: "handleRun q r s = Returned (s\<lparr>responses := (responses s)(r := responses s r @
            [WriteHead, Write (ErrorEvent (''No tests found for file: '' @ fp)),
             Write (DoneEvent (JNumber 1)), End])\<rparr>)"
    by (simp add: noTestsCalls_def fp)
  then show ?thesis by (simp add: returned_def)
qed

text \<open>The request \<^verbatim>\<open>file=nonexistent/path.ts\<close> against the example registry.\<close>

theorem no_tests_found_for_file_witness:
  "findSuitesForFile (m_suite (mocha (initialDaemon exampleRoot))) ''nonexistent/path.ts'' = []
   \<and> map_option (\<lambda>s'. responses s' 1)
        (returned (handleRun exampleQueryNoFile 1 (initialDaemon exampleRoot)))
       = Some [WriteHead, Write (ErrorEvent ''No tests found for file: nonexistent/path.ts''),
               Write (DoneEvent (JNumber 1)), End]
   \<and> map_option (\<lambda>s'. m_runCount (mocha s'))
        (returned (handleRun exampleQueryNoFile 1 (initialDaemon exampleRoot)))
       = Some 0"
proof -
  have none: "findSuitesForFile (m_suite (mocha (initialDaemon exampleRoot))) ''nonexistent/path.ts'' = []"
    by (simp add: initialDaemon_def example_no_suites)
  have f: "q_file exampleQueryNoFile = Some ''nonexistent/path.ts''"
    by (simp add: exampleQueryNoFile_def)
  have ne: "''nonexistent/path.ts'' \<noteq> []" by simp
  note w = no_tests_found_for_file [OF f ne none, of 1]
  from w have eq: "handleRun exampleQueryNoFile 1 (initialDaemon exampleRoot)
      = Returned ((initialDaemon exampleRoot)\<lparr>responses := (responses (initialDaemon exampleRoot))
          (1 := responses (initialDaemon exampleRoot) 1 @
            [WriteHead, Write (ErrorEvent (''No tests found for file: '' @ ''nonexistent/path.ts'')),
             Write (DoneEvent (JNumber 1)), End])\<rparr>)"
    by (rule conjunct1)
  have c2: "map_option (\<lambda>s'. responses s' 1)
        (returned (handleRun exampleQueryNoFile 1 (initialDaemon exampleRoot)))
       = Some [WriteHead, Write (ErrorEvent ''No tests found for file: nonexistent/path.ts''),
               Write (DoneEvent (JNumber 1)), End]"
    unfolding eq by (simp add: returned_def initialDaemon_def)
  from w have "map_option (\<lambda>s'. m_runCount (mocha s'))
        (returned (handleRun exampleQueryNoFile 1 (initialDaemon exampleRoot)))
       = Some (m_runCount (mocha (initialDaemon exampleRoot)))"
    by (rule conjunct2)
  then have c3: "map_option (\<lambda>s'. m_runCount (mocha s'))
        (returned (handleRun exampleQueryNoFile 1 (initialDaemon exampleRoot)))
       = Some 0"
    by (simp add: initialDaemon_def)
  from none c2 c3 show ?thesis by (intro conjI)
qed

subsection \<open>The completion callback and the failure count\<close>

text \<open>
  Claim C7 asks that a daemon run whose runner delivers a failure count that is not a
  number is reported as exactly one failure, with a log line of its own. The callback of
  \<open>runDaemonTests\<close> does not do that: at the run of the example, called with
  \<^verbatim>\<open>undefined\<close>, it sends the done event with the value as it came and writes nothing to
  the standard output or the standard error. The callback of the one-shot server run
  does what the claim says.
\<close>

theorem daemon_callback_non_numeric_count:
  "runDaemonTests [] False 1 jsonOptions (initialDaemon exampleRoot) = Returned exampleRunning
   \<and> \<not> isNumber JUndefined
   \<and> responses (mochaRunCallback JUndefined None exampleRunning) 1
        = [Write (DoneEvent JUndefined), End]
   \<and> stdout (mochaRunCallback JUndefined None exampleRunning) = []
   \<and> stderr (mochaRunCallback JUndefined None exampleRunning) = []
   \<and> serverTestsCallback JUndefined
        = ([''Mocha did not return a failure count for server tests as expected''], JNumber 1)"
proof -
  have r: "responses (mochaRunCallback JUndefined None exampleRunning) 1
        = [Write (DoneEvent JUndefined), End]"
    unfolding callback_responses [OF exampleRunning_inFlight]
    by (simp add: exampleRunning_def initialDaemon_def resetErrorCalls_def currentJsonBuffer_def)
  have i: "intercept exampleRunning = Some \<lparr>res = 1, previousSnapshotUpdate = None,
      useJsonReporter = True, jsonBuffer = [], heartbeat = True\<rparr>"
    by (simp add: exampleRunning_def)
  have nd: "\<not> clientDisconnected exampleRunning"
    by (simp add: exampleRunning_def initialDaemon_def)
  have o: "stdout (mochaRunCallback JUndefined None exampleRunning) = []"
    using nd by (simp add: mochaRunCallback_def i Let_def res_write_def res_end_def)
      (simp add: exampleRunning_def initialDaemon_def)
  have e: "stderr (mochaRunCallback JUndefined None exampleRunning) = []"
    using nd by (simp add: mochaRunCallback_def i Let_def res_write_def res_end_def)
      (simp add: exampleRunning_def initialDaemon_def)
  have s: "serverTestsCallback JUndefined
        = ([''Mocha did not return a failure count for server tests as expected''], JNumber 1)"
    by (simp add: serverTestsCallback_def isNumber_def)
  have n: "\<not> isNumber JUndefined" by (simp add: isNumber_def)
  from exampleRunning_start n r o e s show ?thesis by (intro conjI)
qed

subsection \<open>Output during a run with the JSON reporter\<close>



lemma exampleActs_state:
  "steps exampleActs exampleRunning =
     Some (exampleRunning\<lparr>
        intercept := Some \<lparr>res = 1, previousSnapshotUpdate = None, useJsonReporter = True,
           jsonBuffer = '' {}'' @ [newline], heartbeat = True\<rparr>,
        stdout := ['' {}'', [newline]],
        stderr := [''warn'' @ [newline]],
        responses := (\<lambda>q. if q = 1 then [Write (ErrorEvent ''warn'')] else [])\<rparr>)"
  by (simp add: exampleActs_def exampleRunning_def initialDaemon_def processStdoutWrite_def
      processStderrWrite_def res_write_def res_call_def Let_def fun_eq_iff
      stripTrailingNewline_def)

lemma trim_example: "trim ('' {}'' @ [newline]) = ''{}''"
  by (simp add: trim_def isWhiteSpace_def newline_def)



subsection \<open>The environment variable of the snapshot mode\<close>

text \<open>For a run that \<open>runDaemonTests\<close> started, the variable has the value \<^verbatim>\<open>'1'\<close> from the
  start and under every sequence of later events when \<^verbatim>\<open>snapshotUpdate\<close> was set (and
  keeps its value when not), and the completion callback gives it the value it had before
  the run, whatever failure count the runner delivered and whether or not the reset of
  the collections threw.\<close>

lemma snapshot_update_restored_by_callback:
  assumes "\<not> daemonTestsRunning s0" "\<not> shuttingDown s0"
    "runDaemonTests g invert r options s0 = Returned s1"
  shows "\<exists>s2. steps acts s1 = Some s2
       \<and> SNAPSHOT_UPDATE s2 = (if opt_snapshotUpdate options then Some ''1'' else SNAPSHOT_UPDATE s0)
       \<and> SNAPSHOT_UPDATE (mochaRunCallback fc e s2) = SNAPSHOT_UPDATE s0"
proof -
  have run1: "runInFlight r (SNAPSHOT_UPDATE s0) (opt_reporter options = ''json'') s1"
    by (rule runInFlight_start [OF assms])
  from steps_inFlight [OF run1, of acts] obtain s2 where
    st: "steps acts s1 = Some s2"
    and run2: "runInFlight r (SNAPSHOT_UPDATE s0) (opt_reporter options = ''json'') s2"
    and env: "SNAPSHOT_UPDATE s2 = SNAPSHOT_UPDATE s1"
    by blast
  have during: "SNAPSHOT_UPDATE s2
      = (if opt_snapshotUpdate options then Some ''1'' else SNAPSHOT_UPDATE s0)"
    unfolding env by (rule start_env [OF assms])
  have after: "SNAPSHOT_UPDATE (mochaRunCallback fc e s2) = SNAPSHOT_UPDATE s0"
    using run2 by (rule callback_env)
  from st during after show ?thesis by blast
qed

text \<open>A call of \<open>runDaemonTests\<close> that threw has not replaced the output functions and has
  not called \<^verbatim>\<open>mochaInstance.run\<close>, so no completion callback will come: the daemon stays
  as the call left it.\<close>

lemma step_after_throw:
  assumes "daemonTestsRunning s" "intercept s = None"
  shows "\<exists>s'. step a s = Some s' \<and> daemonTestsRunning s' \<and> intercept s' = None
           \<and> SNAPSHOT_UPDATE s' = SNAPSHOT_UPDATE s \<and> mocha s' = mocha s"
proof (cases a)
  case (StdoutWrite chunk)
  with assms show ?thesis by (simp add: processStdoutWrite_def)
next
  case (StderrWrite chunk)
  with assms show ?thesis by simp
next
  case HeartbeatTick
  with assms show ?thesis by (simp add: heartbeatTick_def)
next
  case ConnClose
  with assms show ?thesis by (simp add: onClose_def console_log_def processStdoutWrite_def)
next
  case (Signal sg)
  with assms show ?thesis
    by (cases "shuttingDown s")
       (simp_all add: shutdown_eq Let_def console_log_def processStdoutWrite_def,
        simp add: shutdown_def)
next
  case (RunRequest q r')
  from assms have "daemonTestsRunning s \<or> shuttingDown s" by simp
  from step_request_rejected [OF this, of q r'] obtain evs where
    "step (RunRequest q r') s = Some (s\<lparr>responses := (responses s)(r' := responses s r' @ evs)\<rparr>)"
    by blast
  with assms RunRequest show ?thesis by simp
qed

lemma steps_after_throw:
  "daemonTestsRunning s \<Longrightarrow> intercept s = None \<Longrightarrow>
   \<exists>s2. steps acts s = Some s2 \<and> daemonTestsRunning s2 \<and> intercept s2 = None
      \<and> SNAPSHOT_UPDATE s2 = SNAPSHOT_UPDATE s \<and> mocha s2 = mocha s"
proof (induction acts arbitrary: s)
  case Nil
  then show ?case by simp
next
  case (Cons a acts)
  from step_after_throw [OF Cons.prems, of a] obtain s' where
    s': "step a s = Some s'" "daemonTestsRunning s'" "intercept s' = None"
      "SNAPSHOT_UPDATE s' = SNAPSHOT_UPDATE s" "mocha s' = mocha s" by blast
  from Cons.IH [OF s'(2,3)] obtain s2 where
    "steps acts s' = Some s2" "daemonTestsRunning s2" "intercept s2 = None"
    "SNAPSHOT_UPDATE s2 = SNAPSHOT_UPDATE s'" "mocha s2 = mocha s'" by blast
  with s' show ?case by simp
qed

lemma callback_without_run:
  "intercept s = None \<Longrightarrow> mochaRunCallback fc e s = s"
  by (simp add: mochaRunCallback_def)

lemma exampleQueryInvalid_throws:
  "handleRun exampleQueryInvalid 1 (initialDaemon exampleRoot) = Threw exampleWedged"
proof -
  let ?s = "initialDaemon exampleRoot"
  let ?s1 = "?s\<lparr>responses := (responses ?s)(1 := responses ?s 1 @ startCalls exampleQueryInvalid)\<rparr>"
  have nf: "\<not> noSuitesForFile exampleQueryInvalid ?s"
    by (simp add: noSuitesForFile_def exampleQueryInvalid_def emptyQuery_def orDefault_def)
  have g: "requestGrep exampleQueryInvalid ?s = ''(''"
    by (simp add: requestGrep_def effectiveGrep_def exampleQueryInvalid_def emptyQuery_def
        orDefault_def)
  have idle: "\<not> daemonTestsRunning ?s1" "\<not> shuttingDown ?s1"
    by (simp_all add: initialDaemon_def)
  have th: "mochaGrep (requestGrep exampleQueryInvalid ?s) = Throws"
    unfolding g by (rule mochaGrep_open_paren)
  have "handleRun exampleQueryInvalid 1 ?s
      = runDaemonTests (requestGrep exampleQueryInvalid ?s)
          (q_invert exampleQueryInvalid = Some ''1'') 1 (requestOptions exampleQueryInvalid) ?s1"
    using nf by (rule handleRun_run)
  also have "\<dots> = Threw exampleWedged"
    unfolding runDaemonTests_throws [OF idle th]
    by (simp add: exampleWedged_def initialDaemon_def requestOptions_def startCalls_def
        description_def exampleQueryInvalid_def emptyQuery_def orDefault_def setAdd_def
        fun_eq_iff)
  finally show ?thesis .
qed

text \<open>
  Claim C9 asks that the environment variable is restored after every run, on error paths
  too, and that no run changes it for good. The restore is in the completion callback
  only, and the calls of the runner before \<^verbatim>\<open>mochaInstance.run\<close> are not guarded. The
  request \<^verbatim>\<open>grep=(&snapshotUpdate=1\<close>, made on connection 1 of a daemon that has just
  started with the variable unset, sets \<^verbatim>\<open>daemonTestsRunning\<close> and the variable, and then
  \<^verbatim>\<open>mochaInstance.grep\<close> throws: the handler is left with the variable at \<^verbatim>\<open>'1'\<close> and the
  runner not called. Under every sequence of later events the variable stays \<^verbatim>\<open>'1'\<close> and
  the daemon stays in the running state without a run, and a completion callback, if one
  came, would change nothing.
\<close>

theorem snapshot_update_kept_after_throw:
  "SNAPSHOT_UPDATE (initialDaemon exampleRoot) = None
   \<and> \<not> daemonTestsRunning (initialDaemon exampleRoot)
   \<and> q_grep exampleQueryInvalid = Some ''(''
   \<and> q_snapshotUpdate exampleQueryInvalid = Some ''1''
   \<and> handleRun exampleQueryInvalid 1 (initialDaemon exampleRoot) = Threw exampleWedged
   \<and> SNAPSHOT_UPDATE exampleWedged = Some ''1''
   \<and> daemonTestsRunning exampleWedged
   \<and> m_runCount (mocha exampleWedged) = 0
   \<and> (\<forall>acts. \<exists>s2. steps acts exampleWedged = Some s2
          \<and> SNAPSHOT_UPDATE s2 = Some ''1''
          \<and> daemonTestsRunning s2
          \<and> m_runCount (mocha s2) = 0
          \<and> (\<forall>fc e. mochaRunCallback fc e s2 = s2))"
proof -
  have w: "daemonTestsRunning exampleWedged" "intercept exampleWedged = None"
    "SNAPSHOT_UPDATE exampleWedged = Some ''1''" "m_runCount (mocha exampleWedged) = 0"
    by (simp_all add: exampleWedged_def initialDaemon_def)
  have later: "\<exists>s2. steps acts exampleWedged = Some s2
          \<and> SNAPSHOT_UPDATE s2 = Some ''1''
          \<and> daemonTestsRunning s2
          \<and> m_runCount (mocha s2) = 0
          \<and> (\<forall>fc e. mochaRunCallback fc e s2 = s2)" for acts
  proof -
    from steps_after_throw [OF w(1,2), of acts] obtain s2 where
      s2: "steps acts exampleWedged = Some s2" "daemonTestsRunning s2" "intercept s2 = None"
        "SNAPSHOT_UPDATE s2 = SNAPSHOT_UPDATE exampleWedged" "mocha s2 = mocha exampleWedged"
      by blast
    have "mochaRunCallback fc e s2 = s2" for fc e
      using s2(3) by (rule callback_without_run)
    with s2 w show ?thesis by simp
  qed
  have q: "q_grep exampleQueryInvalid = Some ''(''"
    "q_snapshotUpdate exampleQueryInvalid = Some ''1''"
    by (simp_all add: exampleQueryInvalid_def)
  have i: "SNAPSHOT_UPDATE (initialDaemon exampleRoot) = None"
    "\<not> daemonTestsRunning (initialDaemon exampleRoot)"
    by (simp_all add: initialDaemon_def)
  from i q exampleQueryInvalid_throws w(3,1,4) later show ?thesis by (intro conjI allI)
qed

subsection \<open>Name filters: scanning, parsing and matching\<close>

lemma syntax_chars_are_special: "set regexSyntaxChars = set regexSpecialChars"
  by (auto simp: regexSyntaxChars_def regexSpecialChars_def)

lemma plain_char:
  assumes "c \<notin> set regexSpecialChars"
  shows "c \<noteq> backslash" "c \<noteq> CHR ''(''" "c \<noteq> CHR ''?''" "plainToken c = Some (TChar c)"
  using assms by (auto simp: regexSpecialChars_def plainToken_def)

lemma scan_escaped_char:
  "scanPattern Start ((if c \<in> set regexSpecialChars then [backslash, c] else [c]) @ rest)
     = map_option (\<lambda>ts. TChar c # ts) (scanPattern Start rest)"
proof (cases "c \<in> set regexSpecialChars")
  case True
  then show ?thesis by (simp add: syntax_chars_are_special)
next
  case False
  with plain_char [OF False] show ?thesis by simp
qed

lemma scan_escapeRegex:
  "scanPattern Start (escapeRegex s @ rest)
     = map_option (\<lambda>ts. map TChar s @ ts) (scanPattern Start rest)"
proof (induction s)
  case Nil
  show ?case by (simp add: escapeRegex_def option.map_ident)
next
  case (Cons c s)
  have "escapeRegex (c # s) @ rest
      = (if c \<in> set regexSpecialChars then [backslash, c] else [c]) @ (escapeRegex s @ rest)"
    by (simp add: escapeRegex_def)
  then have "scanPattern Start (escapeRegex (c # s) @ rest)
      = map_option (\<lambda>ts. TChar c # ts) (scanPattern Start (escapeRegex s @ rest))"
    by (simp only: scan_escaped_char)
  also have "\<dots> = map_option (\<lambda>ts. map TChar (c # s) @ ts) (scanPattern Start rest)"
    by (simp add: Cons.IH option.map_comp comp_def)
  finally show ?case .
qed

lemma tokenize_escapeRegex: "tokenize (escapeRegex s) = Some (map TChar s)"
  using scan_escapeRegex [of s "[]"] by (simp add: tokenize_def)

lemma scan_bar: "scanPattern Start (CHR ''|'' # rest) = map_option (\<lambda>ts. TBar # ts) (scanPattern Start rest)"
  by (simp add: plainToken_def backslash_def)

lemma scan_join:
  "scanPattern Start (join ''|'' (map escapeRegex titles) @ rest)
     = map_option (\<lambda>ts. literalTokens titles @ ts) (scanPattern Start rest)"
proof (induction titles rule: literalTokens.induct)
  case 1
  show ?case by (simp add: option.map_ident)
next
  case (2 t)
  show ?case by (simp add: scan_escapeRegex)
next
  case (3 t u us)
  have "join ''|'' (map escapeRegex (t # u # us)) @ rest
      = escapeRegex t @ (CHR ''|'' # (join ''|'' (map escapeRegex (u # us)) @ rest))"
    by simp
  then have "scanPattern Start (join ''|'' (map escapeRegex (t # u # us)) @ rest)
      = map_option (\<lambda>ts. map TChar t @ ts)
          (map_option (\<lambda>ts. TBar # ts)
             (scanPattern Start (join ''|'' (map escapeRegex (u # us)) @ rest)))"
    by (simp only: scan_escapeRegex scan_bar)
  also have "\<dots> = map_option (\<lambda>ts. literalTokens (t # u # us) @ ts) (scanPattern Start rest)"
    by (simp only: "3.IH") (simp add: option.map_comp comp_def)
  finally show ?case .
qed

lemma scan_paren:
  "x = [] \<or> hd x \<noteq> CHR ''?'' \<Longrightarrow>
   scanPattern Paren x = map_option (\<lambda>ts. TOpen # ts) (scanPattern Start x)"
  by (cases x) auto

lemma escapeRegex_hd: "escapeRegex t @ rest = [] \<or> hd (escapeRegex t @ rest) \<noteq> CHR ''?''"
  if "rest = [] \<or> hd rest \<noteq> CHR ''?''"
proof (cases t)
  case Nil
  with that show ?thesis by (simp add: escapeRegex_def)
next
  case (Cons c cs)
  show ?thesis
  proof (cases "c \<in> set regexSpecialChars")
    case True
    with Cons show ?thesis by (simp add: escapeRegex_def backslash_def)
  next
    case False
    with Cons plain_char(3) [OF False] show ?thesis by (simp add: escapeRegex_def)
  qed
qed

lemma join_hd:
  "hd (join ''|'' (map escapeRegex titles) @ CHR '')'' # rest) \<noteq> CHR ''?''"
proof (cases titles rule: literalTokens.cases)
  case 1
  then show ?thesis by simp
next
  case (2 t)
  with escapeRegex_hd [of "CHR '')'' # rest" t] show ?thesis by simp
next
  case (3 t u us)
  with escapeRegex_hd [of "CHR ''|'' # join ''|'' (map escapeRegex (u # us)) @ CHR '')'' # rest" t]
  show ?thesis by simp
qed

lemma scan_close: "scanPattern Start (CHR '')'' # rest) = map_option (\<lambda>ts. TClose # ts) (scanPattern Start rest)"
  by (simp add: plainToken_def backslash_def)

lemma scan_fileGrep:
  "scanPattern Start (fileGrep (map escapeRegex titles) @ rest)
     = map_option (\<lambda>ts. TCaret # TOpen # literalTokens titles @ TClose # ts) (scanPattern Start rest)"
proof -
  have "scanPattern Start (fileGrep (map escapeRegex titles) @ rest)
      = map_option (\<lambda>ts. TCaret # ts)
          (scanPattern Paren (join ''|'' (map escapeRegex titles) @ CHR '')'' # rest))"
    by (simp add: fileGrep_def plainToken_def backslash_def)
  also have "\<dots> = map_option (\<lambda>ts. TCaret # ts) (map_option (\<lambda>ts. TOpen # ts)
          (scanPattern Start (join ''|'' (map escapeRegex titles) @ CHR '')'' # rest)))"
    using join_hd [of titles rest] by (simp add: scan_paren)
  also have "\<dots> = map_option (\<lambda>ts. TCaret # TOpen # literalTokens titles @ TClose # ts) (scanPattern Start rest)"
    by (simp only: scan_join scan_close) (simp add: option.map_comp comp_def)
  finally show ?thesis .
qed

lemma scan_append_close:
  "scanPattern st g = Some G \<Longrightarrow> scanPattern st (g @ '')'') = Some (G @ [TClose])"
proof (induction st g arbitrary: G rule: scanPattern.induct)
  case 1
  then show ?case by (simp add: plainToken_def backslash_def)
next
  case 3
  then show ?case by (simp add: plainToken_def backslash_def)
next
  case (5 c cs)
  then show ?case by (auto split: if_splits option.splits)
next
  case (6 c cs)
  then show ?case by (auto split: if_splits)
next
  case (7 c cs)
  then show ?case by (auto split: if_splits)
next
  case (8 c cs)
  then show ?case by (auto split: if_splits)
qed simp_all

lemma scan_lookahead_open:
  "scanPattern Start (''(?='' @ x) = map_option (\<lambda>ts. TLookahead # ts) (scanPattern Start x)"
  by (simp add: backslash_def)

lemma scan_dot_star:
  "scanPattern Start (''.*'' @ x) = map_option (\<lambda>ts. TDot # TStar # ts) (scanPattern Start x)"
  by (simp add: plainToken_def backslash_def option.map_comp comp_def)

lemma tokenize_effectiveGrep:
  assumes "tokenize (''.*'' @ g) = Some D" "fp \<noteq> []" "g \<noteq> []"
  shows "tokenize (effectiveGrep g fp (map escapeRegex titles))
      = Some (TLookahead # TCaret # TOpen # literalTokens titles @ TClose # TClose
               # TLookahead # D @ [TClose])"
proof -
  have D: "scanPattern Start ((''.*'' @ g) @ '')'') = Some (D @ [TClose])"
    using assms(1) unfolding tokenize_def by (rule scan_append_close)
  have "effectiveGrep g fp (map escapeRegex titles)
      = ''(?='' @ (fileGrep (map escapeRegex titles) @ ('')'' @ (''(?='' @ ((''.*'' @ g) @ '')''))))"
    using assms(2,3) by (simp add: effectiveGrep_def)
  then have "scanPattern Start (effectiveGrep g fp (map escapeRegex titles))
      = scanPattern Start (''(?='' @ (fileGrep (map escapeRegex titles) @ ('')'' @ (''(?='' @ ((''.*'' @ g) @ '')'')))))"
    by (rule arg_cong)
  also have "\<dots> = map_option (\<lambda>ts. TLookahead # ts)
      (scanPattern Start (fileGrep (map escapeRegex titles) @ ('')'' @ (''(?='' @ ((''.*'' @ g) @ '')'')))))"
    by (rule scan_lookahead_open)
  also have "scanPattern Start (fileGrep (map escapeRegex titles) @ ('')'' @ (''(?='' @ ((''.*'' @ g) @ '')''))))
      = map_option (\<lambda>ts. TCaret # TOpen # literalTokens titles @ TClose # ts)
          (scanPattern Start ('')'' @ (''(?='' @ ((''.*'' @ g) @ '')''))))"
    by (rule scan_fileGrep)
  also have "scanPattern Start ('')'' @ (''(?='' @ ((''.*'' @ g) @ '')'')))
      = map_option (\<lambda>ts. TClose # ts) (scanPattern Start (''(?='' @ ((''.*'' @ g) @ '')'')))"
    using scan_close [of "''(?='' @ ((''.*'' @ g) @ '')'')"] by simp
  also have "scanPattern Start (''(?='' @ ((''.*'' @ g) @ '')''))
      = map_option (\<lambda>ts. TLookahead # ts) (scanPattern Start ((''.*'' @ g) @ '')''))"
    by (rule scan_lookahead_open)
  also note D
  finally show ?thesis by (simp add: tokenize_def)
qed

lemma quantified_extend:
  "quantified a rest = Some (r, rest2) \<Longrightarrow>
   quantified a (rest @ TClose # after) = Some (r, rest2 @ TClose # after)"
  by (cases "(a, rest)" rule: quantified.cases) auto

lemma parse_extend_aux:
  "(\<forall>ts r rest. parseDisjunction n ts = Some (r, rest) \<longrightarrow>
       parseDisjunction n (ts @ TClose # after) = Some (r, rest @ TClose # after))
   \<and> (\<forall>ts r rest. parseAlternative n ts = Some (r, rest) \<longrightarrow>
       parseAlternative n (ts @ TClose # after) = Some (r, rest @ TClose # after))
   \<and> (\<forall>ts r rest. parseTerm n ts = Some (r, rest) \<longrightarrow>
       parseTerm n (ts @ TClose # after) = Some (r, rest @ TClose # after))"
proof (induction n)
  case 0
  show ?case by simp
next
  case (Suc n)
  then have D: "\<And>ts r rest. parseDisjunction n ts = Some (r, rest) \<Longrightarrow>
       parseDisjunction n (ts @ TClose # after) = Some (r, rest @ TClose # after)"
    and A: "\<And>ts r rest. parseAlternative n ts = Some (r, rest) \<Longrightarrow>
       parseAlternative n (ts @ TClose # after) = Some (r, rest @ TClose # after)"
    and T: "\<And>ts r rest. parseTerm n ts = Some (r, rest) \<Longrightarrow>
       parseTerm n (ts @ TClose # after) = Some (r, rest @ TClose # after)"
    by blast+
  have T': "parseTerm (Suc n) (ts @ TClose # after) = Some (r, rest @ TClose # after)"
    if h: "parseTerm (Suc n) ts = Some (r, rest)" for ts r rest
  proof (cases ts)
    case Nil
    with h show ?thesis by simp
  next
    case (Cons x xs)
    show ?thesis
    proof (cases x)
      case (TChar c)
      with h Cons show ?thesis by (simp add: quantified_extend)
    next
      case TDot
      with h Cons show ?thesis by (simp add: quantified_extend)
    next
      case TOpen
      with h Cons obtain d rest' where d: "parseDisjunction n xs = Some (d, TClose # rest')"
        and q: "quantified d rest' = Some (r, rest)"
        by (auto split: option.splits list.splits token.splits)
      from D [OF d] quantified_extend [OF q] TOpen Cons show ?thesis by simp
    next
      case TLookahead
      with h Cons obtain d rest' where d: "parseDisjunction n xs = Some (d, TClose # rest')"
        and q: "r = Lookahead d" "rest = rest'"
        by (auto split: option.splits list.splits token.splits)
      from D [OF d] q TLookahead Cons show ?thesis by simp
    qed (use h Cons in simp_all)
  qed
  have A': "parseAlternative (Suc n) (ts @ TClose # after) = Some (r, rest @ TClose # after)"
    if h: "parseAlternative (Suc n) ts = Some (r, rest)" for ts r rest
  proof (cases ts)
    case Nil
    with h show ?thesis by simp
  next
    case (Cons x xs)
    show ?thesis
    proof (cases "x = TBar \<or> x = TClose")
      case True
      with h Cons show ?thesis by auto
    next
      case False
      then have eq: "parseAlternative (Suc n) (x # ys) =
        (case parseTerm n (x # ys) of
          None \<Rightarrow> None
        | Some (t, rest) \<Rightarrow>
            (case parseAlternative n rest of
               None \<Rightarrow> None
             | Some (a, rest') \<Rightarrow> Some (Seq t a, rest')))" for ys
        by (cases x) simp_all
      from h Cons eq [of xs] obtain t r1 a where
        t: "parseTerm n (x # xs) = Some (t, r1)" and a: "parseAlternative n r1 = Some (a, rest)"
        and r: "r = Seq t a"
        by (auto split: option.splits)
      from T [OF t] A [OF a] r Cons show ?thesis
        by (simp add: eq [of "xs @ TClose # after"])
    qed
  qed
  have D': "parseDisjunction (Suc n) (ts @ TClose # after) = Some (r, rest @ TClose # after)"
    if h: "parseDisjunction (Suc n) ts = Some (r, rest)" for ts r rest
  proof -
    from h obtain a r1 where a: "parseAlternative n ts = Some (a, r1)"
      by (auto split: option.splits)
    show ?thesis
    proof (cases "\<exists>r2. r1 = TBar # r2")
      case True
      then obtain r2 where r2: "r1 = TBar # r2" by blast
      with h a obtain d where d: "parseDisjunction n r2 = Some (d, rest)" and r: "r = Alt a d"
        by (auto split: option.splits)
      from A [OF a] D [OF d] r2 r show ?thesis by simp
    next
      case False
      with h a have r: "r = a" "rest = r1"
        by (auto split: option.splits list.splits token.splits)
      from False have "(case r1 @ TClose # after of
             TBar # rest' \<Rightarrow>
               (case parseDisjunction n rest' of
                  None \<Rightarrow> None
                | Some (d, rest'') \<Rightarrow> Some (Alt a d, rest''))
           | _ \<Rightarrow> Some (a, r1 @ TClose # after)) = Some (a, r1 @ TClose # after)"
        by (cases r1) (auto split: token.splits)
      with A [OF a] r show ?thesis by simp
    qed
  qed
  from D' A' T' show ?case by blast
qed

lemma parseDisjunction_extend:
  "parseDisjunction n ts = Some (r, rest) \<Longrightarrow>
   parseDisjunction n (ts @ TClose # after) = Some (r, rest @ TClose # after)"
  using parse_extend_aux [of n after] by blast

lemma parse_mono_aux:
  "(\<forall>ts v. parseDisjunction n ts = Some v \<longrightarrow> parseDisjunction (Suc n) ts = Some v)
   \<and> (\<forall>ts v. parseAlternative n ts = Some v \<longrightarrow> parseAlternative (Suc n) ts = Some v)
   \<and> (\<forall>ts v. parseTerm n ts = Some v \<longrightarrow> parseTerm (Suc n) ts = Some v)"
proof (induction n)
  case 0
  show ?case by simp
next
  case (Suc n)
  then have D: "\<And>ts v. parseDisjunction n ts = Some v \<Longrightarrow> parseDisjunction (Suc n) ts = Some v"
    and A: "\<And>ts v. parseAlternative n ts = Some v \<Longrightarrow> parseAlternative (Suc n) ts = Some v"
    and T: "\<And>ts v. parseTerm n ts = Some v \<Longrightarrow> parseTerm (Suc n) ts = Some v"
    by blast+
  have T': "parseTerm (Suc (Suc n)) ts = Some v" if h: "parseTerm (Suc n) ts = Some v" for ts v
  proof (cases ts)
    case Nil
    with h show ?thesis by simp
  next
    case (Cons x xs)
    show ?thesis
    proof (cases x)
      case TOpen
      with h Cons obtain d rest' where d: "parseDisjunction n xs = Some (d, TClose # rest')"
        and q: "quantified d rest' = Some v"
        by (auto split: option.splits list.splits token.splits)
      from D [OF d] q TOpen Cons show ?thesis by simp
    next
      case TLookahead
      with h Cons obtain d rest' where d: "parseDisjunction n xs = Some (d, TClose # rest')"
        and q: "v = (Lookahead d, rest')"
        by (auto split: option.splits list.splits token.splits)
      from D [OF d] q TLookahead Cons show ?thesis by simp
    qed (use h Cons in simp_all)
  qed
  have A': "parseAlternative (Suc (Suc n)) ts = Some v" if h: "parseAlternative (Suc n) ts = Some v" for ts v
  proof (cases ts)
    case Nil
    with h show ?thesis by simp
  next
    case (Cons x xs)
    show ?thesis
    proof (cases "x = TBar \<or> x = TClose")
      case True
      with h Cons show ?thesis by auto
    next
      case False
      then have eq: "parseAlternative (Suc m) (x # ys) =
        (case parseTerm m (x # ys) of
          None \<Rightarrow> None
        | Some (t, rest) \<Rightarrow>
            (case parseAlternative m rest of
               None \<Rightarrow> None
             | Some (a, rest') \<Rightarrow> Some (Seq t a, rest')))" for ys m
        by (cases x) simp_all
      from h Cons eq [of n xs] obtain t r1 a rest where
        t: "parseTerm n (x # xs) = Some (t, r1)" and a: "parseAlternative n r1 = Some (a, rest)"
        and r: "v = (Seq t a, rest)"
        by (auto split: option.splits)
      from T [OF t] A [OF a] r Cons show ?thesis
        by (simp add: eq [of "Suc n" xs])
    qed
  qed
  have D': "parseDisjunction (Suc (Suc n)) ts = Some v" if h: "parseDisjunction (Suc n) ts = Some v" for ts v
  proof -
    from h obtain a r1 where a: "parseAlternative n ts = Some (a, r1)"
      by (auto split: option.splits)
    show ?thesis
    proof (cases "\<exists>r2. r1 = TBar # r2")
      case True
      then obtain r2 where r2: "r1 = TBar # r2" by blast
      with h a obtain d rest where d: "parseDisjunction n r2 = Some (d, rest)" and r: "v = (Alt a d, rest)"
        by (auto split: option.splits)
      from A [OF a] D [OF d] r2 r show ?thesis by simp
    next
      case False
      with h a have r: "v = (a, r1)"
        by (auto split: option.splits list.splits token.splits)
      from False have "(case r1 of
             TBar # rest' \<Rightarrow>
               (case parseDisjunction (Suc n) rest' of
                  None \<Rightarrow> None
                | Some (d, rest'') \<Rightarrow> Some (Alt a d, rest''))
           | _ \<Rightarrow> Some (a, r1)) = Some (a, r1)"
        by (cases r1) (auto split: token.splits)
      with A [OF a] r show ?thesis by simp
    qed
  qed
  from D' A' T' show ?case by blast
qed

lemma parseDisjunction_mono:
  "parseDisjunction n ts = Some v \<Longrightarrow> n \<le> m \<Longrightarrow> parseDisjunction m ts = Some v"
proof (induction m)
  case 0
  then show ?case by simp
next
  case (Suc m)
  show ?case
  proof (cases "n = Suc m")
    case True
    with Suc.prems show ?thesis by simp
  next
    case False
    with Suc.prems have "n \<le> m" by simp
    from Suc.IH [OF Suc.prems(1) this] parse_mono_aux [of m] show ?thesis by blast
  qed
qed

lemma closes_stops: "closes rest \<Longrightarrow> stops rest"
  by (auto simp: closes_def stops_def split: list.splits)

lemma parseAlternative_stop: "stops rest \<Longrightarrow> parseAlternative (Suc n) rest = Some (Empty, rest)"
  by (cases rest) (auto simp: stops_def)

lemma quantified_plain:
  "stops rest \<Longrightarrow> quantified a rest = Some (a, rest)"
  "quantified a (TChar c # xs) = Some (a, TChar c # xs)"
  by (cases rest) (auto simp: stops_def)

lemma parseAlternative_literal:
  "length t < n \<Longrightarrow> stops rest \<Longrightarrow>
   parseAlternative n (map TChar t @ rest) = Some (literal t, rest)"
proof (induction t arbitrary: n)
  case Nil
  then obtain m where "n = Suc m" by (cases n) auto
  with Nil show ?case by (simp add: parseAlternative_stop)
next
  case (Cons c cs)
  then obtain m where n: "n = Suc (Suc m)" and m: "length cs \<le> m"
    by (cases n; cases "n - 1") auto
  have q: "quantified (Chr c) (map TChar cs @ rest) = Some (Chr c, map TChar cs @ rest)"
    using Cons.prems(2) by (cases cs) (simp_all add: quantified_plain)
  have "parseAlternative (Suc m) (map TChar cs @ rest) = Some (literal cs, rest)"
    using m Cons.prems(2) by (intro Cons.IH) simp_all
  with q n show ?case by simp
qed

lemma parseDisjunction_not_bar:
  "parseAlternative n ts = Some (a, rest) \<Longrightarrow> closes rest \<Longrightarrow>
   parseDisjunction (Suc n) ts = Some (a, rest)"
  by (cases rest) (auto simp: closes_def)

lemma parseDisjunction_literals:
  "titles \<noteq> [] \<Longrightarrow> length (literalTokens titles) + 1 < n \<Longrightarrow> closes rest \<Longrightarrow>
   parseDisjunction n (literalTokens titles @ rest) = Some (literalAlternatives titles, rest)"
proof (induction titles arbitrary: n rule: literalTokens.induct)
  case 1
  then show ?case by simp
next
  case (2 t)
  then obtain m where n: "n = Suc m" and m: "length t < m" by (cases n) auto
  have "parseAlternative m (map TChar t @ rest) = Some (literal t, rest)"
    using m closes_stops [OF "2.prems"(3)] by (rule parseAlternative_literal)
  from parseDisjunction_not_bar [OF this "2.prems"(3)] n show ?case by simp
next
  case (3 t u us)
  then obtain m where n: "n = Suc m"
    and m: "length t + 1 + length (literalTokens (u # us)) + 1 \<le> m"
    by (cases n) auto
  have a: "parseAlternative m (map TChar t @ (TBar # literalTokens (u # us) @ rest))
      = Some (literal t, TBar # literalTokens (u # us) @ rest)"
    using m by (intro parseAlternative_literal) (simp_all add: stops_def)
  have d: "parseDisjunction m (literalTokens (u # us) @ rest)
      = Some (literalAlternatives (u # us), rest)"
    using m "3.prems"(3) by (intro "3.IH") simp_all
  from a d n show ?case by simp
qed

lemma parseDisjunction_anchor:
  assumes "titles \<noteq> []" "length (literalTokens titles) + 6 \<le> n" "closes rest"
  shows "parseDisjunction n (TCaret # TOpen # literalTokens titles @ TClose # rest)
           = Some (Seq InputStart (Seq (literalAlternatives titles) Empty), rest)"
proof -
  from assms(2) obtain m where n: "n = Suc (Suc (Suc (Suc m)))"
    and m: "length (literalTokens titles) + 1 < m"
    by (cases n; cases "n - 1"; cases "n - 2"; cases "n - 3") auto
  have d: "parseDisjunction m (literalTokens titles @ TClose # rest)
      = Some (literalAlternatives titles, TClose # rest)"
    using assms(1) m by (rule parseDisjunction_literals) (simp add: closes_def)
  have q: "quantified (literalAlternatives titles) rest = Some (literalAlternatives titles, rest)"
    using closes_stops [OF assms(3)] by (rule quantified_plain)
  have t: "parseTerm (Suc m) (TOpen # literalTokens titles @ TClose # rest)
      = Some (literalAlternatives titles, rest)"
    by (simp add: d q)
  have e: "parseAlternative (Suc m) rest = Some (Empty, rest)"
    using closes_stops [OF assms(3)] by (rule parseAlternative_stop)
  have a2: "parseAlternative (Suc (Suc m)) (TOpen # literalTokens titles @ TClose # rest)
      = Some (Seq (literalAlternatives titles) Empty, rest)"
    using t e by simp
  have a3: "parseAlternative (Suc (Suc (Suc m))) (TCaret # TOpen # literalTokens titles @ TClose # rest)
      = Some (Seq InputStart (Seq (literalAlternatives titles) Empty), rest)"
    using a2 by simp
  from parseDisjunction_not_bar [OF a3 assms(3)] n show ?thesis by simp
qed

lemma parse_effective:
  assumes "titles \<noteq> []" "parseDisjunction k D = Some (d, [])"
    "k + 4 \<le> n" "length (literalTokens titles) + 9 \<le> n"
  shows "parseDisjunction n (TLookahead # TCaret # TOpen # literalTokens titles @ TClose # TClose
               # TLookahead # D @ [TClose])
     = Some (Seq (Lookahead (Seq InputStart (Seq (literalAlternatives titles) Empty)))
              (Seq (Lookahead d) Empty), [])"
proof -
  from assms(3,4) obtain m where n: "n = Suc (Suc (Suc (Suc m)))" and km: "k \<le> m"
    and lm: "length (literalTokens titles) + 5 \<le> m"
    by (cases n; cases "n - 1"; cases "n - 2"; cases "n - 3") auto
  let ?A = "Seq InputStart (Seq (literalAlternatives titles) Empty)"
  let ?R1 = "TLookahead # D @ [TClose]"
  have dD: "parseDisjunction m (D @ [TClose]) = Some (d, [TClose])"
    using parseDisjunction_extend [OF parseDisjunction_mono [OF assms(2) km], of "[]"] by simp
  have t2: "parseTerm (Suc m) ?R1 = Some (Lookahead d, [])"
    by (simp add: dD)
  have a2: "parseAlternative (Suc (Suc m)) ?R1 = Some (Seq (Lookahead d) Empty, [])"
    using t2 by simp
  have dA: "parseDisjunction (Suc m) (TCaret # TOpen # literalTokens titles @ TClose # (TClose # ?R1))
      = Some (?A, TClose # ?R1)"
    using assms(1) lm by (intro parseDisjunction_anchor) (simp_all add: closes_def)
  have t1: "parseTerm (Suc (Suc m)) (TLookahead # TCaret # TOpen # literalTokens titles @ TClose # TClose # ?R1)
      = Some (Lookahead ?A, ?R1)"
    using dA by simp
  have a1: "parseAlternative (Suc (Suc (Suc m)))
        (TLookahead # TCaret # TOpen # literalTokens titles @ TClose # TClose # ?R1)
      = Some (Seq (Lookahead ?A) (Seq (Lookahead d) Empty), [])"
    using t1 a2 by simp
  from parseDisjunction_not_bar [OF a1] n show ?thesis by (simp add: closes_def)
qed

lemma length_scan_dot_star:
  "tokenize (''.*'' @ g) = Some D \<Longrightarrow> \<exists>G. D = TDot # TStar # G"
  by (auto simp: tokenize_def scan_dot_star [of g, simplified])

lemma regexCompile_effectiveGrep:
  assumes "regexCompile (''.*'' @ g) = Some d" "fp \<noteq> []" "g \<noteq> []" "titles \<noteq> []"
  shows "regexCompile (effectiveGrep g fp (map escapeRegex titles))
     = Some (Seq (Lookahead (Seq InputStart (Seq (literalAlternatives titles) Empty)))
              (Seq (Lookahead d) Empty))"
proof -
  from assms(1) obtain D where D: "tokenize (''.*'' @ g) = Some D"
    and p: "parseDisjunction (3 * length D + 3) D = Some (d, [])"
    by (auto simp: regexCompile_def split: option.splits list.splits prod.splits)
  let ?E = "TLookahead # TCaret # TOpen # literalTokens titles @ TClose # TClose
               # TLookahead # D @ [TClose]"
  have tk: "tokenize (effectiveGrep g fp (map escapeRegex titles)) = Some ?E"
    using D assms(2,3) by (rule tokenize_effectiveGrep)
  have "parseDisjunction (3 * length ?E + 3) ?E
     = Some (Seq (Lookahead (Seq InputStart (Seq (literalAlternatives titles) Empty)))
              (Seq (Lookahead d) Empty), [])"
    using assms(4) p by (rule parse_effective) simp_all
  with tk show ?thesis by (simp add: regexCompile_def)
qed

lemma regexCompile_escapeRegex: "regexCompile (escapeRegex s) = Some (literal s)"
proof -
  have "parseAlternative (3 * length s + 2) (map TChar s @ []) = Some (literal s, [])"
    by (rule parseAlternative_literal) (simp_all add: stops_def)
  then have a: "parseAlternative (3 * length s + 2) (map TChar s) = Some (literal s, [])"
    by simp
  have d: "parseDisjunction (Suc (3 * length s + 2)) (map TChar s) = Some (literal s, [])"
    by (rule parseDisjunction_not_bar [OF a]) (simp add: closes_def)
  have f: "3 * length (map TChar s) + 3 = Suc (3 * length s + 2)" by simp
  show ?thesis
    by (simp only: regexCompile_def tokenize_escapeRegex option.case f d prod.case list.case)
qed

lemma take_drop_Cons_iff:
  "take (Suc n) (drop i s) = c # cs \<longleftrightarrow> i < length s \<and> s ! i = c \<and> take n (drop (Suc i) s) = cs"
proof (cases "i < length s")
  case True
  then have "drop i s = s ! i # drop (Suc i) s" by (simp add: Cons_nth_drop_Suc)
  with True show ?thesis by simp
next
  case False
  then show ?thesis by simp
qed

lemma ends_literal:
  "ends (literal t) s i = (if take (length t) (drop i s) = t then [i + length t] else [])"
proof (induction t arbitrary: i)
  case Nil
  show ?case by simp
next
  case (Cons c cs)
  show ?case
  proof (cases "i < length s \<and> s ! i = c")
    case True
    then have "ends (literal (c # cs)) s i = ends (literal cs) s (Suc i)" by simp
    also have "\<dots> = (if take (length cs) (drop (Suc i) s) = cs then [Suc i + length cs] else [])"
      by (rule Cons.IH)
    also have "\<dots> = (if take (length (c # cs)) (drop i s) = c # cs then [i + length (c # cs)] else [])"
      using True by (simp add: take_drop_Cons_iff)
    finally show ?thesis .
  next
    case False
    then have "ends (literal (c # cs)) s i = []" by auto
    moreover from False have "take (length (c # cs)) (drop i s) \<noteq> c # cs"
      using take_drop_Cons_iff [of "length cs" i s c cs] by auto
    ultimately show ?thesis by simp
  qed
qed

lemma ends_literalAlternatives:
  "titles \<noteq> [] \<Longrightarrow>
   (ends (literalAlternatives titles) s i \<noteq> []) = (\<exists>t \<in> set titles. take (length t) (drop i s) = t)"
proof (induction titles rule: literalAlternatives.induct)
  case 1
  then show ?case by simp
next
  case (2 t)
  show ?case by (simp add: ends_literal)
next
  case (3 t u us)
  then have "(ends (literalAlternatives (u # us)) s i \<noteq> [])
      = (\<exists>t \<in> set (u # us). take (length t) (drop i s) = t)" by simp
  then show ?case by (auto simp: ends_literal)
qed

lemma take_prefix_iff: "take (length t) s = t \<longleftrightarrow> prefix t s"
proof
  assume "take (length t) s = t"
  then have "s = t @ drop (length t) s" by (metis append_take_drop_id)
  then show "prefix t s" by (rule prefixI)
next
  assume "prefix t s"
  then obtain zs where "s = t @ zs" by (rule prefixE)
  then show "take (length t) s = t" by simp
qed

lemma matchesSomewhere_iff:
  "matchesSomewhere r s \<longleftrightarrow> (\<exists>i \<le> length s. ends r s i \<noteq> [])"
proof -
  have "matchesSomewhere r s \<longleftrightarrow> (\<exists>i \<in> set [0..<Suc (length s)]. ends r s i \<noteq> [])"
    by (simp only: matchesSomewhere_def list_ex_iff)
  also have "\<dots> \<longleftrightarrow> (\<exists>i. i < Suc (length s) \<and> ends r s i \<noteq> [])"
    by (simp only: set_upt atLeastLessThan_iff Bex_def) simp
  also have "\<dots> \<longleftrightarrow> (\<exists>i \<le> length s. ends r s i \<noteq> [])"
    by (simp only: less_Suc_eq_le)
  finally show ?thesis .
qed

lemma ends_conjunction_start:
  "ends (Seq (Lookahead (Seq InputStart (Seq a Empty))) (Seq (Lookahead d) Empty)) s i \<noteq> []
     \<longleftrightarrow> i = 0 \<and> ends a s 0 \<noteq> [] \<and> ends d s 0 \<noteq> []"
  by (cases "ends a s 0") auto

lemma matches_conjunction:
  "matchesSomewhere (Seq (Lookahead (Seq InputStart (Seq a Empty))) (Seq (Lookahead d) Empty)) s
     \<longleftrightarrow> ends a s 0 \<noteq> [] \<and> ends d s 0 \<noteq> []"
  unfolding matchesSomewhere_iff ends_conjunction_start by auto

lemma regexTest_effectiveGrep:
  assumes "regexCompile (''.*'' @ g) = Some d" "fp \<noteq> []" "g \<noteq> []" "titles \<noteq> []"
  shows "regexTest (effectiveGrep g fp (map escapeRegex titles)) cand
     = Some ((\<exists>t \<in> set titles. prefix t cand) \<and> ends d cand 0 \<noteq> [])"
proof -
  have "(ends (literalAlternatives titles) cand 0 \<noteq> []) = (\<exists>t \<in> set titles. prefix t cand)"
    using ends_literalAlternatives [OF assms(4), of cand 0] by (simp add: take_prefix_iff)
  then show ?thesis
    unfolding regexTest_def regexCompile_effectiveGrep [OF assms]
    by (simp only: option.map matches_conjunction)
qed

lemma whole_literal: "length t \<in> set (ends (literal s) t 0) \<longleftrightarrow> t = s"
proof -
  have "length t \<in> set (ends (literal s) t 0) \<longleftrightarrow> take (length s) t = s \<and> length t = length s"
    by (auto simp: ends_literal)
  also have "\<dots> \<longleftrightarrow> t = s" by auto
  finally show ?thesis .
qed

lemma somewhere_literal:
  "matchesSomewhere (literal s) t \<longleftrightarrow> (\<exists>pre post. t = pre @ s @ post)"
proof
  assume "matchesSomewhere (literal s) t"
  then obtain i where "i \<le> length t" "take (length s) (drop i t) = s"
    by (auto simp: matchesSomewhere_iff ends_literal split: if_splits)
  then have "t = take i t @ s @ drop (length s) (drop i t)"
    by (metis append_take_drop_id)
  then show "\<exists>pre post. t = pre @ s @ post" by blast
next
  assume "\<exists>pre post. t = pre @ s @ post"
  then obtain pre post where t: "t = pre @ s @ post" by blast
  then have "length pre \<le> length t" "take (length s) (drop (length pre) t) = s" by simp_all
  then show "matchesSomewhere (literal s) t"
    unfolding matchesSomewhere_iff by (intro exI [of _ "length pre"]) (simp add: ends_literal)
qed

lemma findSuites_escaped:
  "findSuites p node parent = map escapeRegex (findSuiteTitles p node parent)"
proof (induction p node parent rule: findSuites.induct)
  case (1 p t f ft cs parent)
  have "concat (map (\<lambda>child. findSuites p child (orElse f parent)) cs)
      = concat (map (\<lambda>child. map escapeRegex (findSuiteTitles p child (orElse f parent))) cs)"
    using "1.IH" by (induction cs) simp_all
  then show ?case
    by (simp add: map_concat comp_def split: option.splits)
qed

lemma findSuitesForFile_escaped:
  "findSuitesForFile root fp = map escapeRegex (suiteTitlesForFile root fp)"
  by (simp add: findSuitesForFile_def suiteTitlesForFile_def findSuites_escaped)

text \<open>
  Claim C6. For every string \<open>s\<close>, \<open>escapeRegex s\<close> is \<open>s\<close> with a backslash put before
  each character of the set \<^verbatim>\<open>. * + ? ^ $ { } ( ) | [ ] \\<close> and every other character kept.
  Read as a regular expression, the result is the pattern that spells \<open>s\<close> character by
  character: it matches a string as a whole exactly when the string is \<open>s\<close>, and \<^verbatim>\<open>test\<close>
  succeeds on exactly the strings that contain \<open>s\<close>.
\<close>

theorem escapeRegex_round_trip:
  "escapeRegex s
     = concat (map (\<lambda>c. if c \<in> set ''.*+?^${}()|[]'' \<or> c = CHR 0x5C then [CHR 0x5C, c] else [c]) s)
   \<and> regexCompile (escapeRegex s) = Some (literal s)
   \<and> regexMatchesWhole (escapeRegex s) t = Some (t = s)
   \<and> regexTest (escapeRegex s) t = Some (\<exists>pre post. t = pre @ s @ post)"
proof (intro conjI)
  show "escapeRegex s
     = concat (map (\<lambda>c. if c \<in> set ''.*+?^${}()|[]'' \<or> c = CHR 0x5C then [CHR 0x5C, c] else [c]) s)"
  proof -
    have "(c \<in> set regexSpecialChars) = (c \<in> set ''.*+?^${}()|[]'' \<or> c = CHR 0x5C)" for c
      by (auto simp: regexSpecialChars_def backslash_def)
    then show ?thesis by (simp only: escapeRegex_def backslash_def)
  qed
  show "regexCompile (escapeRegex s) = Some (literal s)"
    by (rule regexCompile_escapeRegex)
  show "regexMatchesWhole (escapeRegex s) t = Some (t = s)"
    by (simp add: regexMatchesWhole_def regexCompile_escapeRegex whole_literal)
  show "regexTest (escapeRegex s) t = Some (\<exists>pre post. t = pre @ s @ post)"
    by (simp add: regexTest_def regexCompile_escapeRegex somewhere_literal)
qed

lemma example_titles_a: "suiteTitlesForFile exampleRoot ''x/a.spec.ts'' = [''A'']"
  unfolding exampleRoot_def by code_simp

lemma example_escaped_a: "findSuitesForFile exampleRoot ''x/a.spec.ts'' = [''A'']"
  unfolding exampleRoot_def by code_simp

text \<open>A title with a dot and parentheses: escaped it matches itself and not a string
  that only the unescaped pattern would match.\<close>

theorem escapeRegex_round_trip_witness:
  "escapeRegex ''a.b(c)'' = [CHR ''a'', CHR 0x5C, CHR ''.'', CHR ''b'', CHR 0x5C, CHR ''('',
      CHR ''c'', CHR 0x5C, CHR '')'']
   \<and> regexMatchesWhole (escapeRegex ''a.b(c)'') ''a.b(c)'' = Some True
   \<and> regexMatchesWhole (escapeRegex ''a.b(c)'') ''axb(c)'' = Some False
   \<and> regexMatchesWhole ''a.b'' ''axb'' = Some True"
proof -
  note w = escapeRegex_round_trip [of "''a.b(c)''"]
  from w [of "[]"] have c1: "escapeRegex ''a.b(c)'' = [CHR ''a'', CHR 0x5C, CHR ''.'', CHR ''b'',
      CHR 0x5C, CHR ''('', CHR ''c'', CHR 0x5C, CHR '')'']"
    by simp
  from w [of "''a.b(c)''", THEN conjunct2, THEN conjunct2, THEN conjunct1]
  have c2: "regexMatchesWhole (escapeRegex ''a.b(c)'') ''a.b(c)'' = Some True"
    by simp
  from w [of "''axb(c)''", THEN conjunct2, THEN conjunct2, THEN conjunct1]
  have c3: "regexMatchesWhole (escapeRegex ''a.b(c)'') ''axb(c)'' = Some False"
    by simp
  have c4: "regexMatchesWhole ''a.b'' ''axb'' = Some True" by code_simp
  from c1 c2 c3 c4 show ?thesis by (intro conjI)
qed

lemma starEnds_invariant:
  assumes "\<And>x y. P x \<Longrightarrow> y \<in> set (f x) \<Longrightarrow> P y"
  shows "(\<forall>x \<in> set xs. P x) \<Longrightarrow> \<forall>x \<in> set (starEnds f n xs). P x"
proof (induction n arbitrary: xs)
  case 0
  then show ?case by simp
next
  case (Suc n)
  let ?new = "remdups (filter (\<lambda>j. j \<notin> set xs) (concat (map f xs)))"
  have "\<forall>x \<in> set (xs @ ?new). P x"
    using Suc.prems assms by auto
  from Suc.IH [OF this] Suc.prems show ?case
    by (simp add: Let_def)
qed

lemma starEnds_superset: "set xs \<subseteq> set (starEnds f n xs)"
proof (induction n arbitrary: xs)
  case 0
  show ?case by simp
next
  case (Suc n)
  let ?new = "remdups (filter (\<lambda>j. j \<notin> set xs) (concat (map f xs)))"
  have "set xs \<subseteq> set (xs @ ?new)" by simp
  also have "\<dots> \<subseteq> set (starEnds f n (xs @ ?new))" by (rule Suc.IH)
  finally show ?case by (simp add: Let_def)
qed

lemma starEnds_steps:
  assumes step: "\<And>j. j < m \<Longrightarrow> Suc j \<in> set (f j)"
  shows "k \<le> m \<Longrightarrow> {0..k} \<subseteq> set xs \<Longrightarrow> {0..min (k + n) m} \<subseteq> set (starEnds f n xs)"
proof (induction n arbitrary: xs k)
  case 0
  then show ?case by simp
next
  case (Suc n)
  let ?new = "remdups (filter (\<lambda>j. j \<notin> set xs) (concat (map f xs)))"
  show ?case
  proof (cases "?new = []")
    case True
    then have closed: "\<And>x y. x \<in> set xs \<Longrightarrow> y \<in> set (f x) \<Longrightarrow> y \<in> set xs"
      by (auto simp: filter_empty_conv)
    have "j \<le> m \<Longrightarrow> j \<in> set xs" for j
    proof (induction j)
      case 0
      from Suc.prems(2) show ?case by auto
    next
      case (Suc j)
      then have "j \<in> set xs" "j < m" by simp_all
      with closed step show ?case by blast
    qed
    then have "{0..min (k + Suc n) m} \<subseteq> set xs" by auto
    with True show ?thesis by (simp add: Let_def)
  next
    case False
    show ?thesis
    proof (cases "k < m")
      case True
      have "k \<in> set xs" using Suc.prems(2) by auto
      with step [OF True] have "Suc k \<in> set (concat (map f xs))" by auto
      then have "Suc k \<in> set (xs @ ?new)" by auto
      have "{0..Suc k} \<subseteq> set (xs @ ?new)"
      proof
        fix j assume "j \<in> {0..Suc k}"
        then have "j \<le> k \<or> j = Suc k" by auto
        then show "j \<in> set (xs @ ?new)"
        proof
          assume "j \<le> k"
          with Suc.prems(2) have "j \<in> set xs" by auto
          then show ?thesis by simp
        next
          assume "j = Suc k"
          with \<open>Suc k \<in> set (xs @ ?new)\<close> show ?thesis by simp
        qed
      qed
      from Suc.IH [OF _ this] True
      have "{0..min (Suc k + n) m} \<subseteq> set (starEnds f n (xs @ ?new))" by simp
      with False show ?thesis by (simp add: Let_def)
    next
      case nk: False
      with Suc.prems(1) have "k = m" by simp
      then have "{0..min (k + Suc n) m} \<subseteq> set xs" using Suc.prems(2) by simp
      also have "\<dots> \<subseteq> set (starEnds f (Suc n) xs)" by (rule starEnds_superset)
      finally show ?thesis .
    qed
  qed
qed

lemma ends_star_anychar:
  assumes "noLineTerminator s"
  shows "set (ends (Star AnyChar) s 0) = {0..length s}"
proof
  have nt: "\<not> isLineTerminator (s ! j)" if "j < length s" for j
    using assms that by (simp add: noLineTerminator_def list_all_length)
  have "\<forall>x \<in> set (starEnds (ends AnyChar s) (length s) [0]). x \<le> length s"
    by (rule starEnds_invariant [where P = "\<lambda>x. x \<le> length s"]) (auto split: if_splits)
  then show "set (ends (Star AnyChar) s 0) \<subseteq> {0..length s}" by auto
  have "{0..min (0 + length s) (length s)} \<subseteq> set (starEnds (ends AnyChar s) (length s) [0])"
    by (rule starEnds_steps [where m = "length s"]) (simp_all add: nt)
  then show "{0..length s} \<subseteq> set (ends (Star AnyChar) s 0)" by simp
qed

lemma ends_dot_star_prefix:
  assumes "noLineTerminator s"
  shows "ends (Seq (Star AnyChar) x) s 0 \<noteq> [] \<longleftrightarrow> matchesSomewhere x s"
proof -
  have "ends (Seq (Star AnyChar) x) s 0 \<noteq> []
      \<longleftrightarrow> (\<exists>i \<in> set (ends (Star AnyChar) s 0). ends x s i \<noteq> [])"
    by auto
  also have "\<dots> \<longleftrightarrow> (\<exists>i \<le> length s. ends x s i \<noteq> [])"
    unfolding ends_star_anychar [OF assms] by auto
  finally show ?thesis by (simp only: matchesSomewhere_iff)
qed

lemma parseAlternative_mono:
  "parseAlternative n ts = Some v \<Longrightarrow> n \<le> m \<Longrightarrow> parseAlternative m ts = Some v"
proof (induction m)
  case 0
  then show ?case by simp
next
  case (Suc m)
  show ?case
  proof (cases "n = Suc m")
    case True
    with Suc.prems show ?thesis by simp
  next
    case False
    with Suc.prems have "n \<le> m" by simp
    from Suc.IH [OF Suc.prems(1) this] parse_mono_aux [of m] show ?thesis by blast
  qed
qed

lemma single_alternative_parse:
  assumes "parseDisjunction (Suc n) G = Some (x, [])" "singleAlternative x"
  shows "parseAlternative n G = Some (x, [])"
proof -
  from assms(1) obtain a r1 where a: "parseAlternative n G = Some (a, r1)"
    by (auto split: option.splits)
  show ?thesis
  proof (cases "\<exists>r2. r1 = TBar # r2")
    case True
    with assms(1) a obtain d where "x = Alt a d"
      by (auto split: option.splits)
    with assms(2) show ?thesis by (simp add: singleAlternative_def)
  next
    case False
    with assms(1) a have "x = a" "r1 = []"
      by (auto split: option.splits list.splits token.splits)
    with a show ?thesis by simp
  qed
qed

lemma regexCompile_dot_star:
  assumes "regexCompile g = Some x" "singleAlternative x"
  shows "regexCompile (''.*'' @ g) = Some (Seq (Star AnyChar) x)"
proof -
  from assms(1) obtain G where G: "tokenize g = Some G"
    and p: "parseDisjunction (3 * length G + 3) G = Some (x, [])"
    by (auto simp: regexCompile_def split: option.splits list.splits prod.splits)
  have tk: "tokenize (''.*'' @ g) = Some (TDot # TStar # G)"
    using G by (simp add: tokenize_def scan_dot_star [of g, simplified])
  have e: "3 * length G + 3 = Suc (3 * length G + 2)" by simp
  have "parseDisjunction (Suc (3 * length G + 2)) G = Some (x, [])" using p unfolding e .
  then have alt: "parseAlternative (3 * length G + 2) G = Some (x, [])"
    using assms(2) by (rule single_alternative_parse)
  define m where "m = 3 * length G + 6"
  then have a: "parseAlternative (Suc m) G = Some (x, [])"
    by (intro parseAlternative_mono [OF alt]) simp
  have "parseAlternative (Suc (Suc m)) (TDot # TStar # G) = Some (Seq (Star AnyChar) x, [])"
    using a by simp
  then have "parseDisjunction (Suc (Suc (Suc m))) (TDot # TStar # G)
      = Some (Seq (Star AnyChar) x, [])"
    by (rule parseDisjunction_not_bar) (simp add: closes_def)
  moreover have "3 * length (TDot # TStar # G) + 3 = Suc (Suc (Suc m))"
    by (simp add: m_def)
  ultimately have "parseDisjunction (3 * length (TDot # TStar # G) + 3) (TDot # TStar # G)
      = Some (Seq (Star AnyChar) x, [])"
    by (simp only:)
  with tk show ?thesis by (simp only: regexCompile_def option.case prod.case list.case)
qed

lemma regexTest_effectiveGrep_single:
  assumes "regexCompile g = Some x" "singleAlternative x" "noLineTerminator cand"
    "fp \<noteq> []" "g \<noteq> []" "titles \<noteq> []"
  shows "regexTest (effectiveGrep g fp (map escapeRegex titles)) cand
     = Some ((\<exists>t \<in> set titles. prefix t cand) \<and> regexTest g cand = Some True)"
proof -
  have d: "regexCompile (''.*'' @ g) = Some (Seq (Star AnyChar) x)"
    using assms(1,2) by (rule regexCompile_dot_star)
  have "regexTest g cand = Some (matchesSomewhere x cand)"
    by (simp add: regexTest_def assms(1))
  then show ?thesis
    unfolding regexTest_effectiveGrep [OF d assms(4,5,6)] ends_dot_star_prefix [OF assms(3)]
    by simp
qed

subsection \<open>The filter for a file and a name pattern\<close>

lemma handleRun_grep:
  assumes "\<not> daemonTestsRunning s" "\<not> shuttingDown s" "\<not> noSuitesForFile q s"
    "handleRun q r s = Returned s1"
  shows "m_grep (mocha s1) = requestGrep q s"
proof -
  let ?s' = "s\<lparr>responses := (responses s)(r := responses s r @ startCalls q)\<rparr>"
  have idle: "\<not> daemonTestsRunning ?s'" "\<not> shuttingDown ?s'" using assms(1,2) by simp_all
  from assms(4) have "runDaemonTests (requestGrep q s) (q_invert q = Some ''1'') r
      (requestOptions q) ?s' = Returned s1"
    by (simp add: handleRun_run [OF assms(3)])
  with idle show ?thesis by (rule start_grep)
qed

lemma handleRun_accepts:
  assumes "\<not> daemonTestsRunning s" "\<not> shuttingDown s" "\<not> noSuitesForFile q s"
    "mochaGrep (requestGrep q s) = Accepts" "q_reporter q = None" "serverReporter s = None"
  shows "map_option (\<lambda>s'. m_grep (mocha s')) (returned (handleRun q r s))
           = Some (requestGrep q s)"
proof -
  let ?s' = "s\<lparr>responses := (responses s)(r := responses s r @ startCalls q)\<rparr>"
  have idle: "\<not> daemonTestsRunning ?s'" "\<not> shuttingDown ?s'" using assms(1,2) by simp_all
  have n: "mochaReporter (if opt_reporter (requestOptions q) = ''json'' then ''json''
        else orDefault (serverReporter ?s') ''spec'') = Accepts"
    using assms(5,6) by (simp add: requestOptions_def orDefault_def mochaReporter_def)
  show ?thesis
    unfolding handleRun_run [OF assms(3)] runDaemonTests_accepts [OF idle assms(4) n]
    by (simp add: returned_def startRun_grep)
qed

text \<open>For a name pattern of the fragment that has no bar outside its groups, the filter
  of a run that started is the conjunction: a title without line terminators is selected
  exactly when it starts with one of the titles of the file and contains a match of the
  name pattern.\<close>

lemma effective_grep_single_alternative:
  assumes "\<not> daemonTestsRunning s" "\<not> shuttingDown s"
    "q_file q = Some fp" "fp \<noteq> []" "q_grep q = Some g" "g \<noteq> []"
    "findSuitesForFile (m_suite (mocha s)) fp \<noteq> []"
    "handleRun q r s = Returned s1"
    "regexCompile g = Some x" "singleAlternative x" "noLineTerminator cand"
  shows "m_grep (mocha s1)
           = ''(?=^('' @ join ''|'' (findSuitesForFile (m_suite (mocha s)) fp) @ ''))(?=.*'' @ g @ '')''"
    and "regexTest (m_grep (mocha s1)) cand
           = Some ((\<exists>t \<in> set (suiteTitlesForFile (m_suite (mocha s)) fp). prefix t cand)
                    \<and> regexTest g cand = Some True)"
proof -
  let ?fs = "findSuitesForFile (m_suite (mocha s)) fp"
  let ?titles = "suiteTitlesForFile (m_suite (mocha s)) fp"
  have fp: "orDefault (q_file q) [] = fp" and g: "orDefault (q_grep q) [] = g"
    using assms(3-6) by (simp_all add: orDefault_def)
  have ns: "\<not> noSuitesForFile q s" using assms(7) by (simp add: noSuitesForFile_def fp)
  have rg: "requestGrep q s = effectiveGrep g fp ?fs"
    using assms(4) by (simp add: requestGrep_def fp g)
  have grep: "m_grep (mocha s1) = effectiveGrep g fp ?fs"
    using handleRun_grep [OF assms(1,2) ns assms(8)] rg by simp
  have esc: "?fs = map escapeRegex ?titles"
    by (rule findSuitesForFile_escaped)
  have ne: "?titles \<noteq> []" using assms(7) esc by auto
  show "m_grep (mocha s1) = ''(?=^('' @ join ''|'' ?fs @ ''))(?=.*'' @ g @ '')''"
    using grep assms(4,6) by (simp add: effectiveGrep_def fileGrep_def)
  show "regexTest (m_grep (mocha s1)) cand
      = Some ((\<exists>t \<in> set ?titles. prefix t cand) \<and> regexTest g cand = Some True)"
    unfolding grep esc
    by (rule regexTest_effectiveGrep_single [OF assms(9,10,11) assms(4,6) ne])
qed

lemma exampleQueryAlternation_grep:
  "map_option (\<lambda>s'. m_grep (mocha s'))
     (returned (handleRun exampleQueryAlternation 1 (initialDaemon exampleRoot)))
     = Some ''(?=^(A))(?=.*a|b)''"
proof -
  let ?s = "initialDaemon exampleRoot"
  have fs: "findSuitesForFile (m_suite (mocha ?s)) ''x/a.spec.ts'' = [''A'']"
    by (simp add: initialDaemon_def example_escaped_a)
  have ns: "\<not> noSuitesForFile exampleQueryAlternation ?s"
    by (simp add: noSuitesForFile_def exampleQueryAlternation_def orDefault_def fs)
  have rg: "requestGrep exampleQueryAlternation ?s = ''(?=^(A))(?=.*a|b)''"
    by (simp add: requestGrep_def exampleQueryAlternation_def orDefault_def fs effectiveGrep_def
        fileGrep_def)
  have acc: "mochaGrep ''(?=^(A))(?=.*a|b)'' = Accepts" by code_simp
  have "map_option (\<lambda>s'. m_grep (mocha s')) (returned (handleRun exampleQueryAlternation 1 ?s))
      = Some (requestGrep exampleQueryAlternation ?s)"
  proof (rule handleRun_accepts [OF initial_idle ns])
    show "mochaGrep (requestGrep exampleQueryAlternation ?s) = Accepts"
      unfolding rg by (rule acc)
    show "q_reporter exampleQueryAlternation = None" by (simp add: exampleQueryAlternation_def)
    show "serverReporter ?s = None" by (simp add: initialDaemon_def)
  qed
  then show ?thesis by (simp only: rg)
qed

lemma exampleQueryGrepOnly_grep:
  "map_option (\<lambda>s'. m_grep (mocha s'))
     (returned (handleRun exampleQueryGrepOnly 1 (initialDaemon exampleRoot)))
     = Some ''a|b''"
proof -
  let ?s = "initialDaemon exampleRoot"
  have ns: "\<not> noSuitesForFile exampleQueryGrepOnly ?s"
    by (simp add: noSuitesForFile_def exampleQueryGrepOnly_def emptyQuery_def orDefault_def)
  have rg: "requestGrep exampleQueryGrepOnly ?s = ''a|b''"
    by (simp add: requestGrep_def exampleQueryGrepOnly_def emptyQuery_def orDefault_def
        effectiveGrep_def)
  have acc: "mochaGrep ''a|b'' = Accepts" by code_simp
  have "map_option (\<lambda>s'. m_grep (mocha s')) (returned (handleRun exampleQueryGrepOnly 1 ?s))
      = Some (requestGrep exampleQueryGrepOnly ?s)"
  proof (rule handleRun_accepts [OF initial_idle ns])
    show "mochaGrep (requestGrep exampleQueryGrepOnly ?s) = Accepts"
      unfolding rg by (rule acc)
    show "q_reporter exampleQueryGrepOnly = None"
      by (simp add: exampleQueryGrepOnly_def emptyQuery_def)
    show "serverReporter ?s = None" by (simp add: initialDaemon_def)
  qed
  then show ?thesis by (simp only: rg)
qed

text \<open>
  Claim C5 asks that, with a file pattern and a name pattern \<open>g\<close>, a title is selected
  exactly when it starts with one of the titles of the file and contains a match of \<open>g\<close>.
  The handler builds the two lookaheads, and puts \<open>g\<close> into the second one as it is, with
  no group around it. For the request \<^verbatim>\<open>file=x/a.spec.ts&grep=a|b\<close> against the example
  registry the filter is \<^verbatim>\<open>(?=^(A))(?=.*a|b)\<close>, whose second lookahead reads \<^verbatim>\<open>.*a\<close> or
  \<^verbatim>\<open>b\<close>: the title \<^verbatim>\<open>A b\<close> starts with the title of the file and contains a match of
  \<^verbatim>\<open>a|b\<close>, and the filter does not select it. With a group around the name pattern the
  filter selects it, and so does the same name pattern in a request without a file
  pattern, where the runner gets \<^verbatim>\<open>a|b\<close> itself.
\<close>

theorem effective_grep_alternation_not_grouped:
  "map_option (\<lambda>s'. m_grep (mocha s'))
     (returned (handleRun exampleQueryAlternation 1 (initialDaemon exampleRoot)))
     = Some ''(?=^(A))(?=.*a|b)''
   \<and> suiteTitlesForFile exampleRoot ''x/a.spec.ts'' = [''A'']
   \<and> prefix ''A'' ''A b''
   \<and> regexTest ''a|b'' ''A b'' = Some True
   \<and> regexTest ''(?=^(A))(?=.*a|b)'' ''A b'' = Some False
   \<and> regexTest ''(?=^(A))(?=.*(?:a|b))'' ''A b'' = Some True
   \<and> map_option (\<lambda>s'. m_grep (mocha s'))
        (returned (handleRun exampleQueryGrepOnly 1 (initialDaemon exampleRoot)))
        = Some ''a|b''"
proof -
  have c3: "prefix ''A'' ''A b''" by simp
  have c4: "regexTest ''a|b'' ''A b'' = Some True" by code_simp
  have c5: "regexTest ''(?=^(A))(?=.*a|b)'' ''A b'' = Some False" by code_simp
  have c6: "regexTest ''(?=^(A))(?=.*(?:a|b))'' ''A b'' = Some True" by code_simp
  from exampleQueryAlternation_grep example_titles_a c3 c4 c5 c6 exampleQueryGrepOnly_grep
  show ?thesis by (intro conjI)
qed

subsection \<open>The depth of the parser and the patterns the constructor rejects\<close>

lemma quantified_length:
  "quantified a xs = Some (r, rest) \<Longrightarrow> length rest \<le> length xs"
  by (cases "(a, xs)" rule: quantified.cases) auto

lemma parse_fuel_aux:
  "(\<forall>ts r rest. parseDisjunction n ts = Some (r, rest) \<longrightarrow>
       length rest \<le> length ts \<and>
       (\<forall>k. 3 * (length ts - length rest) + 2 \<le> k \<longrightarrow> parseDisjunction k ts = Some (r, rest)))
   \<and> (\<forall>ts r rest. parseAlternative n ts = Some (r, rest) \<longrightarrow>
       length rest \<le> length ts \<and>
       (\<forall>k. 3 * (length ts - length rest) + 1 \<le> k \<longrightarrow> parseAlternative k ts = Some (r, rest)))
   \<and> (\<forall>ts r rest. parseTerm n ts = Some (r, rest) \<longrightarrow>
       length rest < length ts \<and>
       (\<forall>k. 3 * (length ts - length rest) \<le> k \<longrightarrow> parseTerm k ts = Some (r, rest)))"
proof (induction n)
  case 0
  show ?case by simp
next
  case (Suc n)
  then have D: "\<And>ts r rest k. parseDisjunction n ts = Some (r, rest) \<Longrightarrow>
        3 * (length ts - length rest) + 2 \<le> k \<Longrightarrow> parseDisjunction k ts = Some (r, rest)"
    and Dl: "\<And>ts r rest. parseDisjunction n ts = Some (r, rest) \<Longrightarrow> length rest \<le> length ts"
    and A: "\<And>ts r rest k. parseAlternative n ts = Some (r, rest) \<Longrightarrow>
        3 * (length ts - length rest) + 1 \<le> k \<Longrightarrow> parseAlternative k ts = Some (r, rest)"
    and Al: "\<And>ts r rest. parseAlternative n ts = Some (r, rest) \<Longrightarrow> length rest \<le> length ts"
    and T: "\<And>ts r rest k. parseTerm n ts = Some (r, rest) \<Longrightarrow>
        3 * (length ts - length rest) \<le> k \<Longrightarrow> parseTerm k ts = Some (r, rest)"
    and Tl: "\<And>ts r rest. parseTerm n ts = Some (r, rest) \<Longrightarrow> length rest < length ts"
    by blast+
  have T': "length rest < length ts \<and>
       (\<forall>k. 3 * (length ts - length rest) \<le> k \<longrightarrow> parseTerm k ts = Some (r, rest))"
    if h: "parseTerm (Suc n) ts = Some (r, rest)" for ts r rest
  proof (cases ts)
    case Nil
    with h show ?thesis by simp
  next
    case (Cons x xs)
    show ?thesis
    proof (cases x)
      case (TChar c)
      with h Cons have q: "quantified (Chr c) xs = Some (r, rest)" by simp
      have l: "length rest < length ts" using quantified_length [OF q] Cons by simp
      have "parseTerm k ts = Some (r, rest)" if "3 * (length ts - length rest) \<le> k" for k
      proof -
        from that l obtain m where "k = Suc m" by (cases k) auto
        with q TChar Cons show ?thesis by simp
      qed
      with l show ?thesis by blast
    next
      case TDot
      with h Cons have q: "quantified AnyChar xs = Some (r, rest)" by simp
      have l: "length rest < length ts" using quantified_length [OF q] Cons by simp
      have "parseTerm k ts = Some (r, rest)" if "3 * (length ts - length rest) \<le> k" for k
      proof -
        from that l obtain m where "k = Suc m" by (cases k) auto
        with q TDot Cons show ?thesis by simp
      qed
      with l show ?thesis by blast
    next
      case TCaret
      with h Cons have e: "r = InputStart" "rest = xs" by simp_all
      have "parseTerm k ts = Some (r, rest)" if "3 * (length ts - length rest) \<le> k" for k
      proof -
        from that e Cons obtain m where "k = Suc m" by (cases k) auto
        with e TCaret Cons show ?thesis by simp
      qed
      with e Cons show ?thesis by simp
    next
      case TDollar
      with h Cons have e: "r = InputEnd" "rest = xs" by simp_all
      have "parseTerm k ts = Some (r, rest)" if "3 * (length ts - length rest) \<le> k" for k
      proof -
        from that e Cons obtain m where "k = Suc m" by (cases k) auto
        with e TDollar Cons show ?thesis by simp
      qed
      with e Cons show ?thesis by simp
    next
      case TOpen
      with h Cons obtain d rest' where d: "parseDisjunction n xs = Some (d, TClose # rest')"
        and q: "quantified d rest' = Some (r, rest)"
        by (auto split: option.splits list.splits token.splits)
      from Dl [OF d] have l1: "Suc (length rest') \<le> length xs" by simp
      from quantified_length [OF q] have l2: "length rest \<le> length rest'" .
      have l: "length rest < length ts" using l1 l2 Cons by simp
      have "parseTerm k ts = Some (r, rest)" if k: "3 * (length ts - length rest) \<le> k" for k
      proof -
        from k l obtain m where m: "k = Suc m" by (cases k) auto
        have "3 * (length xs - length (TClose # rest')) + 2 \<le> m"
          using k m l1 l2 Cons by simp
        from D [OF d this] q m TOpen Cons show ?thesis by simp
      qed
      with l show ?thesis by blast
    next
      case TLookahead
      with h Cons obtain d rest' where d: "parseDisjunction n xs = Some (d, TClose # rest')"
        and q: "r = Lookahead d" "rest = rest'"
        by (auto split: option.splits list.splits token.splits)
      from Dl [OF d] have l1: "Suc (length rest') \<le> length xs" by simp
      have l: "length rest < length ts" using l1 q Cons by simp
      have "parseTerm k ts = Some (r, rest)" if k: "3 * (length ts - length rest) \<le> k" for k
      proof -
        from k l obtain m where m: "k = Suc m" by (cases k) auto
        have "3 * (length xs - length (TClose # rest')) + 2 \<le> m"
          using k m l1 q Cons by simp
        from D [OF d this] q m TLookahead Cons show ?thesis by simp
      qed
      with l show ?thesis by blast
    qed (use h Cons in simp_all)
  qed
  have A': "length rest \<le> length ts \<and>
       (\<forall>k. 3 * (length ts - length rest) + 1 \<le> k \<longrightarrow> parseAlternative k ts = Some (r, rest))"
    if h: "parseAlternative (Suc n) ts = Some (r, rest)" for ts r rest
  proof (cases "stops ts")
    case True
    with h have e: "r = Empty" "rest = ts" by (simp_all add: parseAlternative_stop)
    have "parseAlternative k ts = Some (r, rest)" if "3 * (length ts - length rest) + 1 \<le> k" for k
    proof -
      from that obtain m where "k = Suc m" by (cases k) auto
      with e True show ?thesis by (simp add: parseAlternative_stop)
    qed
    with e show ?thesis by simp
  next
    case False
    then obtain x xs where ts: "ts = x # xs" and x: "x \<noteq> TBar" "x \<noteq> TClose"
      by (cases ts) (auto simp: stops_def)
    from x have eq: "parseAlternative (Suc m) (x # xs) =
        (case parseTerm m (x # xs) of
          None \<Rightarrow> None
        | Some (t, rest) \<Rightarrow>
            (case parseAlternative m rest of
               None \<Rightarrow> None
             | Some (a, rest') \<Rightarrow> Some (Seq t a, rest')))" for m
      by (cases x) simp_all
    from h ts eq [of n] obtain t r1 a where
      t: "parseTerm n ts = Some (t, r1)" and a: "parseAlternative n r1 = Some (a, rest)"
      and r: "r = Seq t a"
      by (auto split: option.splits)
    from Tl [OF t] have l1: "length r1 < length ts" .
    from Al [OF a] have l2: "length rest \<le> length r1" .
    have "parseAlternative k ts = Some (r, rest)" if k: "3 * (length ts - length rest) + 1 \<le> k" for k
    proof -
      from k obtain m where m: "k = Suc m" by (cases k) auto
      have "3 * (length ts - length r1) \<le> m" using k m l1 l2 by simp
      from T [OF t this] have t': "parseTerm m ts = Some (t, r1)" .
      have "3 * (length r1 - length rest) + 1 \<le> m" using k m l1 l2 by simp
      from A [OF a this] have a': "parseAlternative m r1 = Some (a, rest)" .
      from t' a' r m ts show ?thesis by (simp add: eq)
    qed
    with l1 l2 show ?thesis by simp
  qed
  have D': "length rest \<le> length ts \<and>
       (\<forall>k. 3 * (length ts - length rest) + 2 \<le> k \<longrightarrow> parseDisjunction k ts = Some (r, rest))"
    if h: "parseDisjunction (Suc n) ts = Some (r, rest)" for ts r rest
  proof -
    from h obtain a r1 where a: "parseAlternative n ts = Some (a, r1)"
      by (auto split: option.splits)
    from Al [OF a] have l1: "length r1 \<le> length ts" .
    show ?thesis
    proof (cases "\<exists>r2. r1 = TBar # r2")
      case True
      then obtain r2 where r2: "r1 = TBar # r2" by blast
      with h a obtain d where d: "parseDisjunction n r2 = Some (d, rest)" and r: "r = Alt a d"
        by (auto split: option.splits)
      from Dl [OF d] have l2: "length rest \<le> length r2" .
      have "parseDisjunction k ts = Some (r, rest)" if k: "3 * (length ts - length rest) + 2 \<le> k" for k
      proof -
        from k obtain m where m: "k = Suc m" by (cases k) auto
        have "3 * (length ts - length r1) + 1 \<le> m" using k m l1 l2 r2 by simp
        from A [OF a this] have a': "parseAlternative m ts = Some (a, r1)" .
        have "3 * (length r2 - length rest) + 2 \<le> m" using k m l1 l2 r2 by simp
        from D [OF d this] have d': "parseDisjunction m r2 = Some (d, rest)" .
        from a' d' r r2 m show ?thesis by simp
      qed
      with l1 l2 r2 show ?thesis by simp
    next
      case False
      with h a have r: "r = a" "rest = r1"
        by (auto split: option.splits list.splits token.splits)
      have c: "(case r1 of
             TBar # rest' \<Rightarrow>
               (case parseDisjunction m rest' of
                  None \<Rightarrow> None
                | Some (d, rest'') \<Rightarrow> Some (Alt a d, rest''))
           | _ \<Rightarrow> Some (a, r1)) = Some (a, r1)" for m
        using False by (cases r1) (auto split: token.splits)
      have "parseDisjunction k ts = Some (r, rest)" if k: "3 * (length ts - length rest) + 2 \<le> k" for k
      proof -
        from k obtain m where m: "k = Suc m" by (cases k) auto
        have "3 * (length ts - length r1) + 1 \<le> m" using k m r by simp
        from A [OF a this] have a': "parseAlternative m ts = Some (a, r1)" .
        from a' c [of m] r m show ?thesis by simp
      qed
      with l1 r show ?thesis by simp
    qed
  qed
  from D' A' T' show ?case by blast
qed

text \<open>The depth that \<open>regexCompile\<close> allows never cuts a parse off: a tree that the
  parser finds for the whole token list with any depth is the one \<open>regexCompile\<close>
  returns.\<close>

lemma regexCompile_depth:
  assumes "tokenize p = Some ts" "parseDisjunction n ts = Some (r, [])"
  shows "regexCompile p = Some r"
proof -
  have "3 * (length ts - length ([] :: token list)) + 2 \<le> 3 * length ts + 3" by simp
  with parse_fuel_aux [of n] assms(2)
  have "parseDisjunction (3 * length ts + 3) ts = Some (r, [])" by blast
  with assms(1) show ?thesis by (simp add: regexCompile_def)
qed

text \<open>The constructor is taken to accept exactly the strings that have a reading, and a
  string that the model lets it reject has no parse at any depth.\<close>

lemma newRegExp_accepts: "newRegExp p = Accepts \<longleftrightarrow> regexCompile p \<noteq> None"
  by (auto simp: newRegExp_def regexCompile_def split: option.splits)

lemma newRegExp_throws:
  assumes "newRegExp p = Throws"
  shows "\<exists>ts. tokenize p = Some ts \<and> \<not> lazyQuantifier ts \<and> \<not> quantifiedLookahead [] ts
           \<and> (\<forall>n r. parseDisjunction n ts \<noteq> Some (r, []))"
proof -
  from assms obtain ts where ts: "tokenize p = Some ts" "regexCompile p = None"
    "\<not> lazyQuantifier ts" "\<not> quantifiedLookahead [] ts"
    by (auto simp: newRegExp_def split: option.splits if_splits)
  have "parseDisjunction n ts \<noteq> Some (r, [])" for n r
  proof
    assume "parseDisjunction n ts = Some (r, [])"
    with ts(1) have "regexCompile p = Some r" by (rule regexCompile_depth)
    with ts(2) show False by simp
  qed
  with ts show ?thesis by blast
qed

end
